theory Spec2Isabelle
  imports Complex_Main "HOL-Library.Multiset" "HOL-Library.Log_Nat"
begin

section \<open>Strings and numbers of the SDK\<close>

text \<open>
  A JavaScript string is a sequence of UTF-16 code units; \<open>length\<close> counts code units and
  the user-name pattern of \<open>submit\<close> tests code units up to \<open>0x017F\<close>, so a string is
  modelled as the list of its code units. Counters and array lengths are naturals;
  timestamps are integers (ms). A JavaScript number (a score, a delay) is an IEEE 754
  double; it is modelled as the real number it stands for, and an arithmetic operation on
  numbers as the exact operation followed by the rounding of its result to a double
  (\<open>fp\<close>, below).
\<close>

type_synonym jsstring = "nat list"

text \<open>Truthiness of an optional string: \<open>undefined\<close> and the empty string are falsy.\<close>

fun truthy :: "'a list option \<Rightarrow> bool" where
  "truthy None = False"
| "truthy (Some s) = (s \<noteq> [])"

text \<open>\<open>a || b\<close> on optional strings.\<close>

definition or_else :: "'a list option \<Rightarrow> 'a list option \<Rightarrow> 'a list option" where
  "or_else a b = (if truthy a then a else b)"

text \<open>\<open>Number.prototype.toString\<close> of a non-negative integer: its decimal digits.\<close>

fun toString :: "nat \<Rightarrow> jsstring" where
  "toString n = (if n < 10 then [48 + n] else toString (n div 10) @ [48 + n mod 10])"

declare toString.simps [simp del]

text \<open>
  Rounding to the nearest double, ties to even. A positive real \<open>x\<close> with
  \<open>2^E \<le> x < 2^(E+1)\<close> is rounded to a multiple of \<open>2^(E-52)\<close> (53 significant bits),
  and to a multiple of \<open>2^-1074\<close> in the subnormal range. \<open>ilog2 x\<close> is the exponent \<open>E\<close>.
  Overflow to infinity, \<open>NaN\<close> and the sign of zero are left out: no operation modelled
  here produces them from finite operands below \<open>2^1023\<close>.
\<close>

definition ilog2 :: "real \<Rightarrow> int" where
  "ilog2 x =
     (if 1 \<le> x then bitlen \<lfloor>x\<rfloor> - 1
      else (let k = bitlen \<lfloor>1 / x\<rfloor> in if x * 2 ^ nat (k - 1) = 1 then 1 - k else - k))"

definition roundTiesToEven :: "real \<Rightarrow> int" where
  "roundTiesToEven m =
     (let n = \<lfloor>m\<rfloor>; f = m - of_int n
      in if f < 1 / 2 then n else if f > 1 / 2 then n + 1 else if even n then n else n + 1)"

definition fp_pos :: "real \<Rightarrow> real" where
  "fp_pos x =
     (let e = max (ilog2 x - 52) (- 1074)
      in of_int (roundTiesToEven (x / 2 powi e)) * 2 powi e)"

definition fp :: "real \<Rightarrow> real" where
  "fp x = (if x = 0 then 0 else if x < 0 then - fp_pos (- x) else fp_pos x)"

text \<open>\<open>s.startsWith(p)\<close>.\<close>

definition startsWith :: "jsstring \<Rightarrow> jsstring \<Rightarrow> bool" where
  "startsWith s p = (take (length p) s = p)"

text \<open>The literal \<open>bulk_\<close> and the separator \<open>_\<close> of the batch keys.\<close>

definition bulk_prefix :: jsstring where
  "bulk_prefix = [98, 117, 108, 107, 95]"

definition underscore :: jsstring where
  "underscore = [95]"

section \<open>Offline queue (src/src/offline-queue.ts)\<close>

subsection \<open>Data\<close>

datatype op_method = Submit | SubmitBulk

type_synonym metadata = "(jsstring \<times> jsstring) list"

text \<open>
  One entry of a request body. The facade fills it from values that may be \<open>undefined\<close>
  at run time (\<open>op.params.userId!\<close>); \<open>JSON.stringify\<close> leaves such a field out, so each
  field is optional here.
\<close>

record SubmitScoreRequest =
  user_id :: "jsstring option"
  user_name :: "jsstring option"
  req_score :: "real option"
  leaderboard_id :: "jsstring option"
  req_metadata :: "metadata option"

text \<open>
  Modelled from the spec: the declarations of \<open>QueuedOperation\<close> and
  \<open>QueuedSubmitResponse\<close> (types.ts is not among the source files). The spec gives a
  queued operation as \<open>{queueId, method: enum{submit, submitBulk}, params: {userId, score,
  leaderboardId, userName, metadata}, timestamp, retryCount}\<close>; the fields of \<open>params\<close>
  are optional in the code that reads them, and \<open>params.scores\<close> is the field the drain
  pass reads for a bulk operation. The field \<open>method\<close> is \<open>opMethod\<close> here. The
  acknowledgement has the fields \<open>enqueue\<close> returns.
\<close>

record params =
  userId :: "jsstring option"
  score :: "real option"
  leaderboardId :: "jsstring option"
  userName :: "jsstring option"
  metadata :: "metadata option"
  scores :: "SubmitScoreRequest list option"

record QueuedOperation =
  opMethod :: op_method
  params :: params
  queueId :: jsstring
  timestamp :: int
  retryCount :: nat

record QueuedSubmitResponse =
  queued :: bool
  resp_queueId :: jsstring
  queuePosition :: nat
  operation :: string
  rank :: int

datatype queue_event =
    QueueAdded QueuedOperation
  | QueueFailed QueuedOperation bool
  | QueueProgress nat nat

datatype sdk_error =
    QueueFull
  | InvalidScore
  | MissingLeaderboardId
  | InvalidUsername
  | InvalidUsernameLength
  | HttpError "nat option"

text \<open>
  The queue object. \<open>persisted\<close> lists, in order, the arrays handed to \<open>storage.set\<close> by
  \<open>persistQueue\<close> (a failing adapter is caught and logged there and changes nothing
  else); \<open>emitted\<close> lists the events passed to \<open>emit\<close> (a throwing handler is caught
  and logged, so handlers cannot change the queue's control flow).
\<close>

record OfflineQueue =
  queue :: "QueuedOperation list"
  processing :: bool
  persisted :: "QueuedOperation list list"
  emitted :: "queue_event list"

definition MAX_QUEUE_SIZE :: nat where
  "MAX_QUEUE_SIZE = 1000"

definition QUEUE_TTL_MS :: int where
  "QUEUE_TTL_MS = 24 * 60 * 60 * 1000"

definition MAX_BATCH_SIZE :: nat where
  "MAX_BATCH_SIZE = 100"

subsection \<open>Operations\<close>

definition persistQueue :: "OfflineQueue \<Rightarrow> OfflineQueue" where
  "persistQueue q = q\<lparr>persisted := persisted q @ [queue q]\<rparr>"

definition emit :: "queue_event \<Rightarrow> OfflineQueue \<Rightarrow> OfflineQueue" where
  "emit ev q = q\<lparr>emitted := emitted q @ [ev]\<rparr>"

text \<open>
  \<open>enqueue\<close> is an async function. It runs without interruption up to
  \<open>await this.persistQueue()\<close>, where \<open>storage.set\<close> has been called and the function
  is suspended; it resumes in a later task, emits the event and reads
  \<open>this.queue.length\<close>. \<open>enqueue_start\<close> is the part before the suspension: the thrown
  error, or the queue object as the suspension finds it. \<open>enqueue_resume\<close> is the part
  after it. \<open>qid\<close> is the value \<open>ulid()\<close> returns and \<open>now\<close> the value of
  \<open>Date.now()\<close>.
\<close>

definition enqueue_start ::
  "jsstring \<Rightarrow> int \<Rightarrow> op_method \<Rightarrow> params \<Rightarrow> OfflineQueue \<Rightarrow> sdk_error + OfflineQueue" where
  "enqueue_start qid now m p q =
     (let queuedOp = \<lparr>opMethod = m, params = p, queueId = qid, timestamp = now, retryCount = 0\<rparr>
      in if length (queue q) \<ge> MAX_QUEUE_SIZE then Inl QueueFull
         else Inr (persistQueue (q\<lparr>queue := queue q @ [queuedOp]\<rparr>)))"

definition enqueue_resume ::
  "jsstring \<Rightarrow> int \<Rightarrow> op_method \<Rightarrow> params \<Rightarrow> OfflineQueue
     \<Rightarrow> OfflineQueue \<times> QueuedSubmitResponse" where
  "enqueue_resume qid now m p q =
     (let queuedOp = \<lparr>opMethod = m, params = p, queueId = qid, timestamp = now, retryCount = 0\<rparr>;
          q3 = emit (QueueAdded queuedOp) q
      in (q3, \<lparr>queued = True, resp_queueId = qid, queuePosition = length (queue q3),
                operation = ''insert'', rank = -1\<rparr>))"

text \<open>
  The whole call. While it is suspended, other code of the page may run on the same queue
  object: the continuation of the \<open>loadQueue()\<close> that the constructor starts and does not
  await, the first part of another \<open>enqueue\<close>, a drain pass. \<open>others\<close> is what that code
  does to the queue object between the suspension and the resumption (the identity when
  nothing else runs). The result pairs the queue object as the call leaves it with either
  the thrown error or the acknowledgement returned.
\<close>

definition enqueue ::
  "jsstring \<Rightarrow> int \<Rightarrow> op_method \<Rightarrow> params \<Rightarrow> (OfflineQueue \<Rightarrow> OfflineQueue) \<Rightarrow> OfflineQueue
     \<Rightarrow> OfflineQueue \<times> (sdk_error + QueuedSubmitResponse)" where
  "enqueue qid now m p others q =
     (case enqueue_start qid now m p q of
        Inl e \<Rightarrow> (q, Inl e)
      | Inr q2 \<Rightarrow>
          (case enqueue_resume qid now m p (others q2) of (q3, r) \<Rightarrow> (q3, Inr r)))"

definition hasItems :: "OfflineQueue \<Rightarrow> bool" where
  "hasItems q = (length (queue q) > 0)"

definition size_q :: "OfflineQueue \<Rightarrow> nat" where
  "size_q q = length (queue q)"


definition setProcessing :: "bool \<Rightarrow> OfflineQueue \<Rightarrow> OfflineQueue" where
  "setProcessing b q = q\<lparr>processing := b\<rparr>"

definition cleanExpiredItems :: "int \<Rightarrow> OfflineQueue \<Rightarrow> OfflineQueue" where
  "cleanExpiredItems now q =
     (let originalSize = length (queue q);
          q1 = q\<lparr>queue := filter (\<lambda>op. now - timestamp op < QUEUE_TTL_MS) (queue q)\<rparr>
      in if length (queue q1) < originalSize then persistQueue q1 else q1)"



text \<open>
  A JavaScript \<open>Map\<close> keeps its keys in insertion order; \<open>set\<close> on a key already
  present replaces the value where the key stands, \<open>set\<close> on a new key appends.
\<close>

type_synonym 'v jsmap = "(jsstring \<times> 'v) list"

fun map_set :: "jsstring \<Rightarrow> 'v \<Rightarrow> 'v jsmap \<Rightarrow> 'v jsmap" where
  "map_set k v [] = [(k, v)]"
| "map_set k v ((k', v') # m) = (if k = k' then (k, v) # m else (k', v') # map_set k v m)"

definition map_has :: "jsstring \<Rightarrow> 'v jsmap \<Rightarrow> bool" where
  "map_has k m = (map_of m k \<noteq> None)"

text \<open>\<open>groups.get(key)!.push(op)\<close>: the array stored under the key grows in place.\<close>

definition map_push :: "jsstring \<Rightarrow> 'a \<Rightarrow> 'a list jsmap \<Rightarrow> 'a list jsmap" where
  "map_push k x m = (case map_of m k of None \<Rightarrow> m | Some xs \<Rightarrow> map_set k (xs @ [x]) m)"

text \<open>The body of the first loop of \<open>batchOperations\<close>, for one operation.\<close>

definition group_step ::
  "QueuedOperation list jsmap \<Rightarrow> QueuedOperation \<Rightarrow> QueuedOperation list jsmap" where
  "group_step groups op =
     (if opMethod op = Submit \<and> truthy (leaderboardId (params op)) then
        (let key = the (leaderboardId (params op));
             groups1 = (if \<not> map_has key groups then map_set key [] groups else groups)
         in map_push key op groups1)
      else if opMethod op = SubmitBulk then
        map_set (bulk_prefix @ queueId op) [op] groups
      else groups)"

text \<open>
  The inner loop \<open>for (let i = 0; i < ops.length; i += MAX_BATCH_SIZE)\<close>, from the
  current \<open>i\<close>.
\<close>

function split_loop ::
  "jsstring \<Rightarrow> QueuedOperation list \<Rightarrow> nat \<Rightarrow> QueuedOperation list jsmap
     \<Rightarrow> QueuedOperation list jsmap" where
  "split_loop key ops i limitedGroups =
     (if i < length ops then
        split_loop key ops (i + MAX_BATCH_SIZE)
          (map_set (key @ underscore @ toString i)
                   (take MAX_BATCH_SIZE (drop i ops)) limitedGroups)
      else limitedGroups)"
  by pat_completeness auto
termination
  by (relation "measure (\<lambda>(key, ops, i, l). length ops - i)") (auto simp: MAX_BATCH_SIZE_def)

declare split_loop.simps [simp del]

text \<open>The body of the second loop, for one entry of \<open>groups\<close>.\<close>

definition limit_step ::
  "QueuedOperation list jsmap \<Rightarrow> jsstring \<times> QueuedOperation list
     \<Rightarrow> QueuedOperation list jsmap" where
  "limit_step limitedGroups entry =
     (case entry of (key, ops) \<Rightarrow>
        if length ops > MAX_BATCH_SIZE then split_loop key ops 0 limitedGroups
        else map_set key ops limitedGroups)"

text \<open>
  \<open>batchOperations\<close> at time \<open>now\<close>: the queue object after the expiry cleaning, and
  the map of batches returned.
\<close>

definition batchOperations ::
  "int \<Rightarrow> OfflineQueue \<Rightarrow> OfflineQueue \<times> QueuedOperation list jsmap" where
  "batchOperations now q =
     (let q1 = cleanExpiredItems now q;
          groups = foldl group_step [] (queue q1);
          limitedGroups = foldl limit_step [] groups
      in (q1, limitedGroups))"

definition removeProcessed :: "jsstring list \<Rightarrow> OfflineQueue \<Rightarrow> OfflineQueue" where
  "removeProcessed queueIds q =
     persistQueue (q\<lparr>queue := filter (\<lambda>op. queueId op \<notin> set queueIds) (queue q)\<rparr>)"

text \<open>\<open>op.retryCount = (op.retryCount || 0) + 1\<close> on the first operation with the id.\<close>

fun bump_retry :: "jsstring \<Rightarrow> QueuedOperation list \<Rightarrow> QueuedOperation list" where
  "bump_retry qid [] = []"
| "bump_retry qid (op # ops) =
     (if queueId op = qid then op\<lparr>retryCount := retryCount op + 1\<rparr> # ops
      else op # bump_retry qid ops)"

definition markFailed :: "jsstring \<Rightarrow> bool \<Rightarrow> OfflineQueue \<Rightarrow> OfflineQueue" where
  "markFailed qid permanent q =
     (case find (\<lambda>x. queueId x = qid) (queue q) of
        None \<Rightarrow> q
      | Some op \<Rightarrow>
          persistQueue
            (if permanent then
               emit (QueueFailed op True)
                 (q\<lparr>queue := filter (\<lambda>x. queueId x \<noteq> qid) (queue q)\<rparr>)
             else q\<lparr>queue := bump_retry qid (queue q)\<rparr>))"

section \<open>Facade (src/unnamed/part_000)\<close>

subsection \<open>State and the API caller\<close>

text \<open>
  How a call of \<open>request\<close> ends, after its own timeout and retries: it resolves, or it
  throws a \<open>GlobalLeaderboardsError\<close> whose \<open>statusCode\<close> is the HTTP status (none for a
  timeout or a transport error).
\<close>

datatype http_result = HttpOk | HttpFailed "nat option"

text \<open>
  The client object: the fields the submission and drain paths use, and \<open>requests\<close>, the
  path and score list of every call of \<open>request\<close> so far, in order.
\<close>

record GlobalLeaderboards =
  isOnline :: bool
  offlineQueue :: OfflineQueue
  defaultLeaderboardId :: "jsstring option"
  requests :: "(string \<times> SubmitScoreRequest list) list"

text \<open>
  \<open>request\<close>: the network is the environment's; \<open>net n\<close> is how the call numbered
  \<open>n\<close> (counting from 0 over the life of the client) ends.
\<close>

definition request ::
  "(nat \<Rightarrow> http_result) \<Rightarrow> string \<Rightarrow> SubmitScoreRequest list \<Rightarrow> GlobalLeaderboards
     \<Rightarrow> GlobalLeaderboards \<times> http_result" where
  "request net path body s =
     (s\<lparr>requests := requests s @ [(path, body)]\<rparr>, net (length (requests s)))"

subsection \<open>submit\<close>

text \<open>The character class of \<open>/^[a-zA-Z0-9\u00C0-\u017F()._\- ]+$/\<close>, on a code unit.\<close>

definition name_char :: "nat \<Rightarrow> bool" where
  "name_char c =
     ((97 \<le> c \<and> c \<le> 122) \<or> (65 \<le> c \<and> c \<le> 90) \<or> (48 \<le> c \<and> c \<le> 57)
      \<or> (192 \<le> c \<and> c \<le> 383)
      \<or> c = 40 \<or> c = 41 \<or> c = 46 \<or> c = 95 \<or> c = 45 \<or> c = 32)"

text \<open>\<open>userNamePattern.test(userName)\<close>: one or more characters, all of the class.\<close>

definition userNamePattern_test :: "jsstring \<Rightarrow> bool" where
  "userNamePattern_test name = (name \<noteq> [] \<and> list_all name_char name)"

record submit_options =
  opt_leaderboardId :: "jsstring option"
  opt_userName :: "jsstring option"
  opt_metadata :: "metadata option"

text \<open>The third argument: left out, a leaderboard id, or an options object.\<close>

datatype submit_arg = NoArg | LeaderboardIdArg jsstring | OptionsArg submit_options

datatype submit_result = QueuedResponse QueuedSubmitResponse | ServerResponse

definition normalize_options :: "submit_arg \<Rightarrow> submit_options" where
  "normalize_options a =
     (case a of
        LeaderboardIdArg l \<Rightarrow>
          \<lparr>opt_leaderboardId = Some l, opt_userName = None, opt_metadata = None\<rparr>
      | OptionsArg opts \<Rightarrow> opts
      | NoArg \<Rightarrow> \<lparr>opt_leaderboardId = None, opt_userName = None, opt_metadata = None\<rparr>)"

text \<open>\<open>options.leaderboardId || this.config.defaultLeaderboardId\<close>.\<close>

definition resolved_leaderboardId :: "submit_arg \<Rightarrow> GlobalLeaderboards \<Rightarrow> jsstring option" where
  "resolved_leaderboardId arg s =
     or_else (opt_leaderboardId (normalize_options arg)) (defaultLeaderboardId s)"

text \<open>\<open>options.userName || userId\<close>.\<close>

definition effective_name :: "submit_arg \<Rightarrow> jsstring \<Rightarrow> jsstring" where
  "effective_name arg uid =
     (case opt_userName (normalize_options arg) of
        None \<Rightarrow> uid
      | Some n \<Rightarrow> if n \<noteq> [] then n else uid)"

text \<open>
  \<open>submit\<close>: the client as the call leaves it, and the thrown error or the value returned.
  \<open>qid\<close> and \<open>now\<close> are what \<open>ulid()\<close> and \<open>Date.now()\<close> give \<open>enqueue\<close>, and
  \<open>others\<close> is what runs on the queue while \<open>enqueue\<close> is suspended.
\<close>

definition submit ::
  "jsstring \<Rightarrow> int \<Rightarrow> (OfflineQueue \<Rightarrow> OfflineQueue) \<Rightarrow> (nat \<Rightarrow> http_result) \<Rightarrow> jsstring
     \<Rightarrow> real \<Rightarrow> submit_arg
     \<Rightarrow> GlobalLeaderboards \<Rightarrow> GlobalLeaderboards \<times> (sdk_error + submit_result)" where
  "submit qid now others net uid sc arg s =
     (if sc < 0 then (s, Inl InvalidScore)
      else
        (let options = normalize_options arg;
             lbId = resolved_leaderboardId arg s
         in if \<not> truthy lbId then (s, Inl MissingLeaderboardId)
            else
              (let name = effective_name arg uid
               in if \<not> userNamePattern_test name then (s, Inl InvalidUsername)
                  else if length name < 1 \<or> length name > 50
                  then (s, Inl InvalidUsernameLength)
                  else if \<not> isOnline s \<or> hasItems (offlineQueue s) then
                    (case enqueue qid now Submit
                            \<lparr>userId = Some uid, score = Some sc, leaderboardId = lbId,
                              userName = Some name, metadata = opt_metadata options,
                              scores = None\<rparr>
                            others (offlineQueue s) of
                       (q', Inl e) \<Rightarrow> (s\<lparr>offlineQueue := q'\<rparr>, Inl e)
                     | (q', Inr r) \<Rightarrow> (s\<lparr>offlineQueue := q'\<rparr>, Inr (QueuedResponse r)))
                  else
                    (case request net ''/v1/scores''
                            [\<lparr>user_id = Some uid, user_name = Some name,
                               req_score = Some sc, leaderboard_id = lbId,
                               req_metadata = opt_metadata options\<rparr>] s of
                       (s', HttpOk) \<Rightarrow> (s', Inr ServerResponse)
                     | (s', HttpFailed st) \<Rightarrow> (s', Inl (HttpError st))))))"

text \<open>The four errors that \<open>submit\<close> raises from its own checks.\<close>

definition validation_error :: "sdk_error \<Rightarrow> bool" where
  "validation_error e =
     (e = InvalidScore \<or> e = MissingLeaderboardId \<or> e = InvalidUsername
      \<or> e = InvalidUsernameLength)"

subsection \<open>processOfflineQueue\<close>

text \<open>
  A pass is taken as a whole: no other call of the client runs between its steps. The
  state of the loop is the client together with the pass's local counters.
\<close>

record drain =
  client :: GlobalLeaderboards
  totalProcessed :: nat
  totalFailed :: nat

datatype loop_ctl = Continue | Break

definition on_queue :: "(OfflineQueue \<Rightarrow> OfflineQueue) \<Rightarrow> drain \<Rightarrow> drain" where
  "on_queue f d = d\<lparr>client := (client d)\<lparr>offlineQueue := f (offlineQueue (client d))\<rparr>\<rparr>"

text \<open>The \<open>queue:progress\<close> event that ends the \<open>try\<close> block.\<close>

definition emit_progress :: "drain \<Rightarrow> drain" where
  "emit_progress d =
     on_queue (emit (QueueProgress (totalProcessed d)
                       (size_q (offlineQueue (client d)) + totalProcessed d))) d"

definition to_request :: "QueuedOperation \<Rightarrow> SubmitScoreRequest" where
  "to_request op =
     \<lparr>user_id = userId (params op),
      user_name = or_else (userName (params op)) (userId (params op)),
      req_score = score (params op),
      leaderboard_id = leaderboardId (params op),
      req_metadata = metadata (params op)\<rparr>"

text \<open>
  The \<open>catch\<close> block: a status of 404, 401 or 403 marks every operation of the batch as
  permanently failed and the loop goes on; any other error leaves the loop.
\<close>

definition mark_one :: "drain \<Rightarrow> QueuedOperation \<Rightarrow> drain" where
  "mark_one d op = (on_queue (markFailed (queueId op) True) d)\<lparr>totalFailed := totalFailed d + 1\<rparr>"

definition is_permanent :: "nat option \<Rightarrow> bool" where
  "is_permanent st = (st = Some 404 \<or> st = Some 401 \<or> st = Some 403)"

definition catch_block :: "nat option \<Rightarrow> QueuedOperation list \<Rightarrow> drain \<Rightarrow> drain \<times> loop_ctl" where
  "catch_block st operations d =
     (if is_permanent st then (foldl mark_one d operations, Continue) else (d, Break))"

text \<open>
  The scores a batch sends, if it sends any: a key that starts with \<open>bulk_\<close> sends the
  \<open>scores\<close> of its first operation when that field is set and nothing otherwise; any other
  key sends one entry per operation.
\<close>

definition batch_call :: "jsstring \<Rightarrow> QueuedOperation list \<Rightarrow> SubmitScoreRequest list option" where
  "batch_call key operations =
     (if startsWith key bulk_prefix then
        (case operations of [] \<Rightarrow> None | op # rest \<Rightarrow> scores (params op))
      else Some (map to_request operations))"

text \<open>One iteration of \<open>for (const [key, operations] of batches)\<close>.\<close>

definition processBatch ::
  "(nat \<Rightarrow> http_result) \<Rightarrow> jsstring \<times> QueuedOperation list \<Rightarrow> drain \<Rightarrow> drain \<times> loop_ctl" where
  "processBatch net entry d =
     (case entry of (key, operations) \<Rightarrow>
        if startsWith key bulk_prefix then
          (case operations of
             [] \<Rightarrow> (d, Break)
           | op # rest \<Rightarrow>
               (case scores (params op) of
                  None \<Rightarrow> (emit_progress d, Continue)
                | Some body \<Rightarrow>
                    (case request net ''/v1/scores/bulk'' body (client d) of
                       (s1, HttpOk) \<Rightarrow>
                         (emit_progress
                            ((on_queue (removeProcessed [queueId op]) (d\<lparr>client := s1\<rparr>))
                               \<lparr>totalProcessed := totalProcessed d + 1\<rparr>), Continue)
                     | (s1, HttpFailed st) \<Rightarrow> catch_block st operations (d\<lparr>client := s1\<rparr>))))
        else
          (case request net ''/v1/scores/bulk'' (map to_request operations) (client d) of
             (s1, HttpOk) \<Rightarrow>
               (emit_progress
                  ((on_queue (removeProcessed (map queueId operations)) (d\<lparr>client := s1\<rparr>))
                     \<lparr>totalProcessed := totalProcessed d + length operations\<rparr>), Continue)
           | (s1, HttpFailed st) \<Rightarrow> catch_block st operations (d\<lparr>client := s1\<rparr>)))"

fun processBatches ::
  "(nat \<Rightarrow> http_result) \<Rightarrow> QueuedOperation list jsmap \<Rightarrow> drain \<Rightarrow> drain \<times> loop_ctl" where
  "processBatches net [] d = (d, Continue)"
| "processBatches net (entry # rest) d =
     (case processBatch net entry d of
        (d', Continue) \<Rightarrow> processBatches net rest d'
      | (d', Break) \<Rightarrow> (d', Break))"

text \<open>The pass up to the loop: the processing flag is set and the batches are taken.\<close>

definition drain_start :: "int \<Rightarrow> GlobalLeaderboards \<Rightarrow> drain" where
  "drain_start now s =
     \<lparr>client = s\<lparr>offlineQueue := fst (batchOperations now (setProcessing True (offlineQueue s)))\<rparr>,
      totalProcessed = 0, totalFailed = 0\<rparr>"

definition processOfflineQueue ::
  "int \<Rightarrow> (nat \<Rightarrow> http_result) \<Rightarrow> GlobalLeaderboards \<Rightarrow> GlobalLeaderboards" where
  "processOfflineQueue now net s =
     (if \<not> isOnline s \<or> processing (offlineQueue s) then s
      else
        (let batches = snd (batchOperations now (setProcessing True (offlineQueue s)));
             d = fst (processBatches net batches (drain_start now s))
         in (client d)\<lparr>offlineQueue := setProcessing False (offlineQueue (client d))\<rparr>))"

section \<open>WebSocket client (src/src/websocket.ts, the class with network detection)\<close>

subsection \<open>Data\<close>

text \<open>
  Strings of this part (leaderboard ids, error codes and messages) are only compared and
  tested for emptiness, so they are plain strings here. The payloads of update messages are
  handed to the callbacks untouched and are left out.
\<close>

datatype readyState = CONNECTING | OPEN | CLOSING | CLOSED

text \<open>A \<open>WebSocket\<close> object: its state and the query parameters of its URL.\<close>

record socket =
  readyState :: readyState
  url_leaderboard_id :: "string option"
  url_user_id :: "string option"

text \<open>A \<open>GlobalLeaderboardsError\<close> with message and code, or a plain \<open>Error\<close>.\<close>

datatype ws_error = GLError string string | JsError string

text \<open>
  An inbound message by its \<open>type\<close>. An error message carries its \<open>error\<close> object when
  that is an object with a \<open>message\<close>: the message and the optional code.
\<close>

datatype ws_message =
    LeaderboardUpdateMsg
  | UserRankUpdateMsg
  | ErrorMsg "(string \<times> string option) option"
  | PingMsg
  | PongMsg
  | ConnectionInfoMsg
  | UpdateMsg
  | ScoreSubmissionMsg
  | OtherMsg string

datatype ws_out =
    SubscribeOut string "string option"
  | UnsubscribeOut string
  | PingOut
  | PongOut

datatype callback =
    OnConnect
  | OnDisconnect nat string
  | OnError ws_error
  | OnLeaderboardUpdate
  | OnUserRankUpdate
  | OnMessage ws_message
  | OnReconnecting nat nat int

text \<open>
  The client object and its environment. \<open>sockets\<close> holds every \<open>WebSocket\<close> the client
  has constructed (a socket is named by its index; \<open>ws\<close> is the current one), since a
  socket that was replaced still delivers its events to the same handlers.
  \<open>subscribedLeaderboards\<close> is the \<open>Set\<close> in insertion order. \<open>timeouts\<close> are the
  pending \<open>setTimeout\<close> timers with their delays and \<open>intervals\<close> the running
  \<open>setInterval\<close> timers; \<open>nextTimerId\<close> is the next handle the runtime gives out (handles
  are positive). \<open>constructed\<close> counts the evaluations of \<open>new WebSocket(url)\<close>, \<open>sent\<close>
  lists the messages sent with the socket that took them, and \<open>calls\<close> the callbacks made
  to the application (which are assumed to return normally and not to call back into the
  client).
\<close>

record LeaderboardWebSocket =
  sockets :: "socket list"
  ws :: "nat option"
  reconnectAttempts :: nat
  reconnectTimer :: "nat option"
  pingInterval :: "nat option"
  subscribedLeaderboards :: "string list"
  isConnecting :: bool
  shouldReconnect :: bool
  permanentError :: "ws_error option"
  netOnline :: bool
  maxReconnectAttempts :: nat
  reconnectDelay :: real
  timeouts :: "(nat \<times> real) list"
  intervals :: "nat list"
  nextTimerId :: nat
  constructed :: nat
  sent :: "(nat \<times> ws_out) list"
  calls :: "callback list"

text \<open>
  The constructor with its options (defaults 5 and 1000) and \<open>navigator.onLine\<close>.
\<close>

definition new_client :: "nat \<Rightarrow> real \<Rightarrow> bool \<Rightarrow> LeaderboardWebSocket" where
  "new_client maxAttempts delay online =
     \<lparr>sockets = [], ws = None, reconnectAttempts = 0, reconnectTimer = None,
      pingInterval = None, subscribedLeaderboards = [], isConnecting = False,
      shouldReconnect = True, permanentError = None, netOnline = online,
      maxReconnectAttempts = maxAttempts, reconnectDelay = delay, timeouts = [],
      intervals = [], nextTimerId = 1, constructed = 0, sent = [], calls = []\<rparr>"

subsection \<open>Helpers of the runtime\<close>

text \<open>\<open>this.ws?.readyState\<close>.\<close>

definition wsReadyState :: "LeaderboardWebSocket \<Rightarrow> readyState option" where
  "wsReadyState s =
     (case ws s of
        None \<Rightarrow> None
      | Some w \<Rightarrow> if w < length (sockets s) then Some (readyState (sockets s ! w)) else None)"

definition isConnected :: "LeaderboardWebSocket \<Rightarrow> bool" where
  "isConnected s = (wsReadyState s = Some OPEN)"

text \<open>\<open>Set.add\<close> and \<open>Set.delete\<close>.\<close>

definition set_add :: "string \<Rightarrow> string list \<Rightarrow> string list" where
  "set_add x xs = (if x \<in> set xs then xs else xs @ [x])"

definition set_delete :: "string \<Rightarrow> string list \<Rightarrow> string list" where
  "set_delete x xs = removeAll x xs"

text \<open>A socket moves to a state; \<open>close()\<close> on a socket that is connecting or open.\<close>

definition set_readyState :: "nat \<Rightarrow> readyState \<Rightarrow> LeaderboardWebSocket \<Rightarrow> LeaderboardWebSocket" where
  "set_readyState w r s =
     (if w < length (sockets s)
      then s\<lparr>sockets := (sockets s)[w := (sockets s ! w)\<lparr>readyState := r\<rparr>]\<rparr>
      else s)"

definition socket_close :: "nat \<Rightarrow> LeaderboardWebSocket \<Rightarrow> LeaderboardWebSocket" where
  "socket_close w s =
     (if w < length (sockets s)
         \<and> (readyState (sockets s ! w) = CONNECTING \<or> readyState (sockets s ! w) = OPEN)
      then set_readyState w CLOSING s
      else s)"

text \<open>\<open>clearTimeout(this.reconnectTimer); this.reconnectTimer = null\<close>, when it is set.\<close>

definition clear_reconnectTimer :: "LeaderboardWebSocket \<Rightarrow> LeaderboardWebSocket" where
  "clear_reconnectTimer s =
     (case reconnectTimer s of
        None \<Rightarrow> s
      | Some t \<Rightarrow> s\<lparr>timeouts := filter (\<lambda>p. fst p \<noteq> t) (timeouts s), reconnectTimer := None\<rparr>)"

subsection \<open>Methods\<close>

definition handleError :: "ws_error \<Rightarrow> LeaderboardWebSocket \<Rightarrow> LeaderboardWebSocket" where
  "handleError e s = s\<lparr>calls := calls s @ [OnError e]\<rparr>"

definition stopPingInterval :: "LeaderboardWebSocket \<Rightarrow> LeaderboardWebSocket" where
  "stopPingInterval s =
     (case pingInterval s of
        None \<Rightarrow> s
      | Some i \<Rightarrow> s\<lparr>intervals := removeAll i (intervals s), pingInterval := None\<rparr>)"

definition startPingInterval :: "LeaderboardWebSocket \<Rightarrow> LeaderboardWebSocket" where
  "startPingInterval s =
     (let s1 = stopPingInterval s; i = nextTimerId s1
      in s1\<lparr>intervals := intervals s1 @ [i], pingInterval := Some i, nextTimerId := i + 1\<rparr>)"

text \<open>
  \<open>connect\<close>; \<open>ctor_ok\<close> tells whether \<open>new WebSocket(url)\<close> returns (it throws on a URL
  it rejects).
\<close>

definition connect ::
  "bool \<Rightarrow> string option \<Rightarrow> string option \<Rightarrow> LeaderboardWebSocket \<Rightarrow> LeaderboardWebSocket" where
  "connect ctor_ok lb uid s =
     (if isConnected s \<or> isConnecting s then s
      else
        (let s1 = s\<lparr>isConnecting := True, shouldReconnect := True, permanentError := None\<rparr>;
             s2 = (if truthy lb
                   then s1\<lparr>subscribedLeaderboards :=
                              set_add (the lb) (subscribedLeaderboards s1)\<rparr>
                   else s1);
             s3 = s2\<lparr>constructed := constructed s2 + 1\<rparr>
         in if ctor_ok then
              s3\<lparr>sockets := sockets s3
                     @ [\<lparr>readyState = CONNECTING,
                         url_leaderboard_id = (if truthy lb then lb else None),
                         url_user_id = (if truthy uid then uid else None)\<rparr>],
                  ws := Some (length (sockets s3))\<rparr>
            else handleError (JsError ''new WebSocket failed'') (s3\<lparr>isConnecting := False\<rparr>)))"

definition cleanup :: "LeaderboardWebSocket \<Rightarrow> LeaderboardWebSocket" where
  "cleanup s =
     (let s1 = clear_reconnectTimer s;
          s2 = stopPingInterval s1;
          s3 = (case ws s2 of None \<Rightarrow> s2 | Some w \<Rightarrow> (socket_close w s2)\<lparr>ws := None\<rparr>)
      in s3\<lparr>isConnecting := False\<rparr>)"

definition disconnect :: "LeaderboardWebSocket \<Rightarrow> LeaderboardWebSocket" where
  "disconnect s = cleanup (s\<lparr>shouldReconnect := False\<rparr>)"

definition not_connected :: ws_error where
  "not_connected = GLError ''WebSocket is not connected'' ''WS_NOT_CONNECTED''"

text \<open>\<open>send\<close>: the client after the message is handed to the socket, or the error thrown.\<close>

definition send :: "ws_out \<Rightarrow> LeaderboardWebSocket \<Rightarrow> ws_error + LeaderboardWebSocket" where
  "send m s =
     (case ws s of
        None \<Rightarrow> Inl not_connected
      | Some w \<Rightarrow>
          if wsReadyState s \<noteq> Some OPEN then Inl not_connected
          else Inr (s\<lparr>sent := sent s @ [(w, m)]\<rparr>))"

text \<open>
  The public methods that can throw return the client as the call leaves it together with
  the error thrown, if any.
\<close>

definition subscribe ::
  "string \<Rightarrow> string option \<Rightarrow> LeaderboardWebSocket \<Rightarrow> LeaderboardWebSocket \<times> ws_error option" where
  "subscribe lb uid s =
     (if ws s = None \<or> wsReadyState s \<noteq> Some OPEN then (s, Some not_connected)
      else
        (case send (SubscribeOut lb uid) s of
           Inl e \<Rightarrow> (s, Some e)
         | Inr s1 \<Rightarrow>
             (s1\<lparr>subscribedLeaderboards := set_add lb (subscribedLeaderboards s1)\<rparr>, None)))"

definition unsubscribe ::
  "string \<Rightarrow> LeaderboardWebSocket \<Rightarrow> LeaderboardWebSocket \<times> ws_error option" where
  "unsubscribe lb s =
     (if ws s = None \<or> wsReadyState s \<noteq> Some OPEN then (s, None)
      else
        (case send (UnsubscribeOut lb) s of
           Inl e \<Rightarrow> (s, Some e)
         | Inr s1 \<Rightarrow>
             (s1\<lparr>subscribedLeaderboards := set_delete lb (subscribedLeaderboards s1)\<rparr>, None)))"

text \<open>
  \<open>scheduleReconnect\<close>; \<open>r\<close> is the value of \<open>Math.random()\<close>. The delay is computed in
  double arithmetic, one rounding for each operation of the source in its order of
  evaluation; \<open>Math.pow(2, n)\<close> is the double nearest to \<open>2^n\<close>, and \<open>Math.round\<close> is
  \<open>\<lfloor>x + 1/2\<rfloor>\<close>. The timer is entered in \<open>timeouts\<close> with its delay.
\<close>

definition scheduleReconnect :: "real \<Rightarrow> LeaderboardWebSocket \<Rightarrow> LeaderboardWebSocket" where
  "scheduleReconnect r s =
     (if \<not> netOnline s then s
      else if reconnectAttempts s \<ge> maxReconnectAttempts s then
        handleError (GLError ''Max reconnection attempts reached'' ''WS_MAX_RECONNECT'') s
      else
        (let s1 = s\<lparr>reconnectAttempts := reconnectAttempts s + 1\<rparr>;
             baseDelay = fp (reconnectDelay s1 * fp (2 ^ (reconnectAttempts s1 - 1)));
             jitter = fp (baseDelay * 0.25);
             randomJitter = fp (fp (fp (r - 0.5) * 2) * jitter);
             delay = max 0 (fp (baseDelay + randomJitter));
             s2 = s1\<lparr>calls := calls s1
                       @ [OnReconnecting (reconnectAttempts s1) (maxReconnectAttempts s1)
                            (round delay)]\<rparr>;
             t = nextTimerId s2
         in s2\<lparr>timeouts := timeouts s2 @ [(t, delay)], reconnectTimer := Some t,
               nextTimerId := t + 1\<rparr>))"

text \<open>The callback of the reconnect timer.\<close>

definition reconnect_timer_fired ::
  "bool \<Rightarrow> real \<Rightarrow> LeaderboardWebSocket \<Rightarrow> LeaderboardWebSocket" where
  "reconnect_timer_fired ctor_ok r s =
     (if netOnline s then connect ctor_ok None None s else scheduleReconnect r s)"

text \<open>The callback of the ping interval.\<close>

definition ping_interval_fired :: "LeaderboardWebSocket \<Rightarrow> LeaderboardWebSocket" where
  "ping_interval_fired s =
     (if wsReadyState s = Some OPEN
      then (case send PingOut s of Inl e \<Rightarrow> s | Inr s1 \<Rightarrow> s1)
      else s)"

subsection \<open>Event handlers of a socket\<close>

text \<open>
  The \<open>forEach\<close> of \<open>onopen\<close>: it subscribes again to every leaderboard but the one of
  the URL, and ends at the first \<open>subscribe\<close> that throws.
\<close>

fun resubscribe ::
  "string list \<Rightarrow> string option \<Rightarrow> LeaderboardWebSocket \<Rightarrow> LeaderboardWebSocket" where
  "resubscribe [] urlId s = s"
| "resubscribe (l # ls) urlId s =
     (if Some l \<noteq> urlId then
        (case subscribe l None s of
           (s1, None) \<Rightarrow> resubscribe ls urlId s1
         | (s1, Some e) \<Rightarrow> s1)
      else resubscribe ls urlId s)"

definition onopen :: "LeaderboardWebSocket \<Rightarrow> LeaderboardWebSocket" where
  "onopen s =
     (let s1 = s\<lparr>isConnecting := False, reconnectAttempts := 0\<rparr>;
          s2 = startPingInterval s1;
          s3 = s2\<lparr>calls := calls s2 @ [OnConnect]\<rparr>;
          connectedLeaderboardId =
            (case ws s3 of
               None \<Rightarrow> None
             | Some w \<Rightarrow>
                 if w < length (sockets s3) then url_leaderboard_id (sockets s3 ! w) else None)
      in resubscribe (subscribedLeaderboards s3) connectedLeaderboardId s3)"

definition permanentErrors :: "string list" where
  "permanentErrors =
     [''LEADERBOARD_NOT_FOUND'', ''INVALID_API_KEY'', ''INSUFFICIENT_PERMISSIONS'',
      ''INVALID_LEADERBOARD_ID'']"

text \<open>\<open>handleMessage\<close>: the client after it, and whether it threw.\<close>

definition handleMessage ::
  "ws_message \<Rightarrow> LeaderboardWebSocket \<Rightarrow> LeaderboardWebSocket \<times> bool" where
  "handleMessage msg s =
     (let s0 = s\<lparr>calls := calls s @ [OnMessage msg]\<rparr>
      in case msg of
           LeaderboardUpdateMsg \<Rightarrow> (s0\<lparr>calls := calls s0 @ [OnLeaderboardUpdate]\<rparr>, False)
         | UserRankUpdateMsg \<Rightarrow> (s0\<lparr>calls := calls s0 @ [OnUserRankUpdate]\<rparr>, False)
         | ErrorMsg (Some (m, code)) \<Rightarrow>
             (let c = (if truthy code then the code else ''UNKNOWN_ERROR'');
                  error = GLError m c;
                  s1 = (if c \<in> set permanentErrors then
                          (let s2 = s0\<lparr>shouldReconnect := False, permanentError := Some error\<rparr>
                           in case ws s2 of
                                None \<Rightarrow> s2
                              | Some w \<Rightarrow>
                                  if wsReadyState s2 = Some OPEN then socket_close w s2 else s2)
                        else s0)
              in (handleError error s1, False))
         | ErrorMsg None \<Rightarrow>
             (handleError (GLError ''Invalid error message format'' ''INVALID_MESSAGE_FORMAT'') s0,
              False)
         | PingMsg \<Rightarrow> (case send PongOut s0 of Inl e \<Rightarrow> (s0, True) | Inr s1 \<Rightarrow> (s1, False))
         | PongMsg \<Rightarrow> (s0, False)
         | ConnectionInfoMsg \<Rightarrow> (s0, False)
         | UpdateMsg \<Rightarrow> (s0, False)
         | ScoreSubmissionMsg \<Rightarrow> (s0, False)
         | OtherMsg t \<Rightarrow> (s0, False))"

text \<open>\<open>onmessage\<close>; \<open>None\<close> is data that \<open>JSON.parse\<close> rejects.\<close>

definition onmessage :: "ws_message option \<Rightarrow> LeaderboardWebSocket \<Rightarrow> LeaderboardWebSocket" where
  "onmessage data s =
     (case data of
        None \<Rightarrow> handleError (JsError ''Failed to parse WebSocket message'') s
      | Some msg \<Rightarrow>
          (case handleMessage msg s of
             (s1, True) \<Rightarrow> handleError (JsError ''Failed to parse WebSocket message'') s1
           | (s1, False) \<Rightarrow> s1))"

definition onerror :: "LeaderboardWebSocket \<Rightarrow> LeaderboardWebSocket" where
  "onerror s = handleError (JsError ''WebSocket error'') s"

definition onclose :: "nat \<Rightarrow> string \<Rightarrow> real \<Rightarrow> LeaderboardWebSocket \<Rightarrow> LeaderboardWebSocket" where
  "onclose code reason r s =
     (let s1 = s\<lparr>isConnecting := False\<rparr>;
          s2 = stopPingInterval s1;
          s3 = s2\<lparr>calls := calls s2 @ [OnDisconnect code reason]\<rparr>
      in if shouldReconnect s3 then scheduleReconnect r s3 else s3)"

subsection \<open>Network listeners and manual reconnect\<close>

definition handleOnline :: "bool \<Rightarrow> LeaderboardWebSocket \<Rightarrow> LeaderboardWebSocket" where
  "handleOnline ctor_ok s =
     (let s1 = s\<lparr>netOnline := True\<rparr>
      in if permanentError s1 \<noteq> None then s1
         else if \<not> isConnected s1 \<and> \<not> isConnecting s1 \<and> shouldReconnect s1
         then connect ctor_ok None None s1
         else s1)"

definition handleOffline :: "LeaderboardWebSocket \<Rightarrow> LeaderboardWebSocket" where
  "handleOffline s = clear_reconnectTimer (s\<lparr>netOnline := False\<rparr>)"

definition ws_offline :: ws_error where
  "ws_offline = GLError ''Cannot reconnect while offline'' ''WS_OFFLINE''"

definition reconnect ::
  "bool \<Rightarrow> LeaderboardWebSocket \<Rightarrow> LeaderboardWebSocket \<times> ws_error option" where
  "reconnect ctor_ok s =
     (if isConnected s \<or> isConnecting s then (s, None)
      else
        (case permanentError s of
           Some e \<Rightarrow> (s, Some e)
         | None \<Rightarrow>
             (let s1 = s\<lparr>reconnectAttempts := 0, shouldReconnect := True\<rparr>
              in if \<not> netOnline s1 then (s1, Some ws_offline)
                 else (connect ctor_ok None None s1, None))))"

subsection \<open>The client as a transition system\<close>

text \<open>
  What can happen to a client: a call of a public method, an event of one of its sockets,
  a timer that fires, a change of the network. An event carries what the environment
  decides: whether the \<open>WebSocket\<close> constructor returns, the value of \<open>Math.random()\<close>,
  the close code and reason. An event the runtime cannot deliver (an open event of a socket
  that is not connecting, a second close event of a socket, a timer that is not pending)
  leaves the client as it is.
\<close>

datatype ws_event =
    Connect bool "string option" "string option"
  | Disconnect
  | Subscribe string "string option"
  | Unsubscribe string
  | Reconnect bool
  | SocketOpen nat
  | SocketMessage nat "ws_message option"
  | SocketError nat
  | SocketClose nat nat string real
  | TimeoutFires nat bool real
  | IntervalFires nat
  | NetworkOnline bool
  | NetworkOffline

definition socket_in :: "nat \<Rightarrow> readyState list \<Rightarrow> LeaderboardWebSocket \<Rightarrow> bool" where
  "socket_in w rs s = (w < length (sockets s) \<and> readyState (sockets s ! w) \<in> set rs)"

fun step :: "ws_event \<Rightarrow> LeaderboardWebSocket \<Rightarrow> LeaderboardWebSocket" where
  "step (Connect ctor_ok lb uid) s = connect ctor_ok lb uid s"
| "step Disconnect s = disconnect s"
| "step (Subscribe lb uid) s = fst (subscribe lb uid s)"
| "step (Unsubscribe lb) s = fst (unsubscribe lb s)"
| "step (Reconnect ctor_ok) s = fst (reconnect ctor_ok s)"
| "step (SocketOpen w) s =
     (if socket_in w [CONNECTING] s then onopen (set_readyState w OPEN s) else s)"
| "step (SocketMessage w data) s =
     (if socket_in w [OPEN, CLOSING] s then onmessage data s else s)"
| "step (SocketError w) s = (if w < length (sockets s) then onerror s else s)"
| "step (SocketClose w code reason r) s =
     (if socket_in w [CONNECTING, OPEN, CLOSING] s
      then onclose code reason r (set_readyState w CLOSED s) else s)"
| "step (TimeoutFires t ctor_ok r) s =
     (if t \<in> fst ` set (timeouts s)
      then reconnect_timer_fired ctor_ok r
             (s\<lparr>timeouts := filter (\<lambda>p. fst p \<noteq> t) (timeouts s)\<rparr>)
      else s)"
| "step (IntervalFires i) s = (if i \<in> set (intervals s) then ping_interval_fired s else s)"
| "step (NetworkOnline ctor_ok) s = handleOnline ctor_ok s"
| "step NetworkOffline s = handleOffline s"

definition run :: "ws_event list \<Rightarrow> LeaderboardWebSocket \<Rightarrow> LeaderboardWebSocket" where
  "run evs s = foldl (\<lambda>s e. step e s) s evs"

section \<open>Concrete inputs\<close>

text \<open>
  Queues of \<open>n\<close> submit operations for one leaderboard id \<open>lb\<close>, all stamped \<open>t\<close>, with
  the queue ids \<open>0\<close>, \<open>1\<close>, ... in decimal; \<open>[76]\<close> is the leaderboard id \<open>L\<close>,
  \<open>[117]\<close> the user id \<open>u\<close>.
\<close>

definition example_params :: "jsstring option \<Rightarrow> params" where
  "example_params lb =
     \<lparr>userId = Some [117], score = Some 1, leaderboardId = lb, userName = None,
      metadata = None, scores = None\<rparr>"

definition example_op :: "jsstring option \<Rightarrow> int \<Rightarrow> nat \<Rightarrow> QueuedOperation" where
  "example_op lb t i =
     \<lparr>opMethod = Submit, params = example_params lb, queueId = toString i, timestamp = t,
      retryCount = 0\<rparr>"

definition example_queue :: "nat \<Rightarrow> jsstring option \<Rightarrow> int \<Rightarrow> OfflineQueue" where
  "example_queue n lb t =
     \<lparr>queue = map (example_op lb t) [0..<n], processing = False, persisted = [], emitted = []\<rparr>"



text \<open>
  A queue with two operations for leaderboard \<open>L\<close> and one for leaderboard \<open>M\<close>
  (\<open>[77]\<close>), a client that is online with a given queue, and a network whose first call
  fails with a given status while every later call succeeds.
\<close>

definition mixed_queue :: OfflineQueue where
  "mixed_queue =
     \<lparr>queue = [example_op (Some [76]) 0 0, example_op (Some [76]) 0 1,
               example_op (Some [77]) 0 2],
      processing = False, persisted = [], emitted = []\<rparr>"

text \<open>
  A queue that holds a submit operation without leaderboard id between two operations for
  leaderboard \<open>L\<close>.
\<close>

definition unroutable_queue :: OfflineQueue where
  "unroutable_queue =
     \<lparr>queue = [example_op (Some [76]) 0 0, example_op None 0 7, example_op (Some [76]) 0 1],
      processing = False, persisted = [], emitted = []\<rparr>"

definition example_client :: "OfflineQueue \<Rightarrow> GlobalLeaderboards" where
  "example_client q =
     \<lparr>isOnline = True, offlineQueue = q, defaultLeaderboardId = None, requests = []\<rparr>"

definition first_fails :: "nat option \<Rightarrow> nat \<Rightarrow> http_result" where
  "first_fails st n = (if n = 0 then HttpFailed st else HttpOk)"

text \<open>A user name of 51 letters \<open>a\<close>.\<close>

definition long_name :: jsstring where
  "long_name = replicate 51 97"

text \<open>
  A client connects, its socket opens, and the server answers with the error code
  \<open>INVALID_API_KEY\<close>.
\<close>

definition permanent_trace :: "ws_event list" where
  "permanent_trace =
     [Connect True (Some ''L'') None, SocketOpen 0,
      SocketMessage 0 (Some (ErrorMsg (Some (''bad key'', Some ''INVALID_API_KEY''))))]"

text \<open>The same client once the socket, closed by the client with code 4000, is closed.\<close>

definition after_permanent :: LeaderboardWebSocket where
  "after_permanent =
     run (permanent_trace @ [SocketClose 0 4000 ''Permanent error: INVALID_API_KEY'' (1 / 2)])
       (new_client 5 1000 True)"

text \<open>
  A first connection fails and a reconnect is scheduled (timer 1); the application calls
  \<open>reconnect()\<close> before the timer fires; the second connection fails too and another
  reconnect is scheduled (timer 2); then the application calls \<open>disconnect()\<close>.
\<close>

definition stale_timer_trace :: "ws_event list" where
  "stale_timer_trace =
     [Connect True None None, SocketClose 0 1006 [] (1 / 2), Reconnect True,
      SocketClose 1 1006 [] (1 / 2), Disconnect]"

text \<open>
  101 operations for leaderboard \<open>L\<close> followed by one operation for the leaderboard
  named \<open>L_0\<close>.
\<close>

definition collision_queue :: OfflineQueue where
  "collision_queue =
     \<lparr>queue = map (example_op (Some [76]) 0) [0..<101] @ [example_op (Some [76, 95, 48]) 0 101],
      processing = False, persisted = [], emitted = []\<rparr>"

text \<open>
  101 operations for leaderboard \<open>L\<close>, one operation for leaderboard \<open>M\<close>, and 49 more
  operations for \<open>L\<close>.
\<close>

definition mixed_large_queue :: OfflineQueue where
  "mixed_large_queue =
     \<lparr>queue = map (example_op (Some [76]) 0) [0..<101] @ [example_op (Some [77]) 0 101]
                @ map (example_op (Some [76]) 0) [102..<151],
      processing = False, persisted = [], emitted = []\<rparr>"

section \<open>Notions used in the proofs\<close>

text \<open>The operations the first loop of \<open>batchOperations\<close> puts into a group.\<close>

definition grouped :: "QueuedOperation \<Rightarrow> bool" where
  "grouped op = ((opMethod op = Submit \<and> truthy (leaderboardId (params op))) \<or> opMethod op = SubmitBulk)"

text \<open>All the operations held in a map of batches, with multiplicity.\<close>

definition vals :: "'a list jsmap \<Rightarrow> 'a multiset" where
  "vals m = mset (concat (map snd m))"

text \<open>
  The key under which the first loop of \<open>batchOperations\<close> files an operation, if it
  files it; the submit operations for leaderboard \<open>L\<close>; and the keys \<open>L_0\<close>, \<open>L_100\<close>,
  ... that the second loop gives the sub-batches of a group \<open>L\<close> of \<open>n\<close> operations.
\<close>

definition group_key :: "QueuedOperation \<Rightarrow> jsstring option" where
  "group_key op =
     (if opMethod op = Submit \<and> truthy (leaderboardId (params op)) then leaderboardId (params op)
      else if opMethod op = SubmitBulk then Some (bulk_prefix @ queueId op)
      else None)"

definition for_leaderboard :: "jsstring \<Rightarrow> QueuedOperation \<Rightarrow> bool" where
  "for_leaderboard L op = (opMethod op = Submit \<and> leaderboardId (params op) = Some L)"

definition split_keys :: "jsstring \<Rightarrow> nat \<Rightarrow> jsstring list" where
  "split_keys L n = map (\<lambda>k. L @ underscore @ toString (100 * k)) [0..<(n + 99) div 100]"

text \<open>
  The submit operations for leaderboard \<open>L\<close> that \<open>batchOperations\<close> leaves in the queue
  once it has purged the expired ones, in queue order; and the groups it returns for
  \<open>L\<close> when these are more than 100: the entries of the map under the split keys of
  \<open>L\<close>, in the map's order.
\<close>

definition ops_for :: "jsstring \<Rightarrow> int \<Rightarrow> OfflineQueue \<Rightarrow> QueuedOperation list" where
  "ops_for L now q = filter (for_leaderboard L) (queue (cleanExpiredItems now q))"

definition groups_for ::
  "jsstring \<Rightarrow> int \<Rightarrow> OfflineQueue \<Rightarrow> (jsstring \<times> QueuedOperation list) list" where
  "groups_for L now q =
     filter (\<lambda>e. fst e \<in> set (split_keys L (length (ops_for L now q))))
       (snd (batchOperations now q))"

text \<open>The array a map holds under a key, empty when the key is absent.\<close>

definition lookup :: "jsstring \<Rightarrow> 'v list jsmap \<Rightarrow> 'v list" where
  "lookup k m = (case map_of m k of None \<Rightarrow> [] | Some xs \<Rightarrow> xs)"

text \<open>The queue array of the client inside a drain pass.\<close>

definition dq :: "drain \<Rightarrow> QueuedOperation list" where
  "dq d = queue (offlineQueue (client d))"

text \<open>
  The invariant of the WebSocket client, and the relation between two states that agree on
  the two fields it reads.
\<close>

definition perm_frame :: "LeaderboardWebSocket \<Rightarrow> LeaderboardWebSocket \<Rightarrow> bool" where
  "perm_frame s s' = (permanentError s' = permanentError s \<and> shouldReconnect s' = shouldReconnect s)"

definition perm_inv :: "LeaderboardWebSocket \<Rightarrow> bool" where
  "perm_inv s = (permanentError s = None \<or> \<not> shouldReconnect s)"

text \<open>
  The calls that ask for a connection; a client that will not reconnect by itself, has no
  pending timeout and has constructed \<open>n\<close> sockets; and the relation between two states
  that agree on these three fields.
\<close>

definition is_connect_call :: "ws_event \<Rightarrow> bool" where
  "is_connect_call e = (case e of Connect ok lb uid \<Rightarrow> True | Reconnect ok \<Rightarrow> True | _ \<Rightarrow> False)"

definition quiet :: "LeaderboardWebSocket \<Rightarrow> nat \<Rightarrow> bool" where
  "quiet s n = (\<not> shouldReconnect s \<and> timeouts s = [] \<and> constructed s = n)"

definition quiet_frame :: "LeaderboardWebSocket \<Rightarrow> LeaderboardWebSocket \<Rightarrow> bool" where
  "quiet_frame s s' =
     (shouldReconnect s' = shouldReconnect s \<and> timeouts s' = timeouts s
      \<and> constructed s' = constructed s)"

text \<open>
  The reals that are doubles, up to the exponent range: an integer significand of at most
  53 bits times a power of two not below \<open>2^-1074\<close>.
\<close>

definition double :: "real \<Rightarrow> bool" where
  "double y = (\<exists>k j. y = of_int k * 2 powi j \<and> \<bar>k\<bar> \<le> 2 ^ 53 \<and> - 1074 \<le> j)"

section \<open>Auxiliary lemmas\<close>

subsection \<open>Batch keys and chunks\<close>

lemma toString_nonempty: "toString n \<noteq> []"
  by (subst toString.simps) simp

lemma toString_inj: "toString n = toString m \<Longrightarrow> n = m"
proof (induction n arbitrary: m rule: toString.induct)
  case (1 n)
  show ?case
  proof (cases "n < 10")
    case True
    show ?thesis
    proof (cases "m < 10")
      case True
      with \<open>n < 10\<close> "1.prems" show ?thesis
        by (simp add: toString.simps[of n] toString.simps[of m])
    next
      case False
      with \<open>n < 10\<close> "1.prems" toString_nonempty[of "m div 10"] show ?thesis
        by (simp add: toString.simps[of n] toString.simps[of m])
    qed
  next
    case False
    show ?thesis
    proof (cases "m < 10")
      case True
      with \<open>\<not> n < 10\<close> "1.prems" toString_nonempty[of "n div 10"] show ?thesis
        by (simp add: toString.simps[of n] toString.simps[of m])
    next
      case mf: False
      with False "1.prems" have "toString (n div 10) = toString (m div 10)" "n mod 10 = m mod 10"
        by (simp_all add: toString.simps[of n] toString.simps[of m])
      with "1.IH"[OF False] have "n div 10 = m div 10" "n mod 10 = m mod 10" by auto
      then show ?thesis by (metis div_mult_mod_eq)
    qed
  qed
qed

lemma map_set_new: "k \<notin> fst ` set m \<Longrightarrow> map_set k v m = m @ [(k, v)]"
  by (induction m) auto

lemma split_loop_chunks:
  "split_loop key ops (100 * a) (map (\<lambda>k. (key @ underscore @ toString (100 * k), take 100 (drop (100 * k) ops))) [0..<a])
   = map (\<lambda>k. (key @ underscore @ toString (100 * k), take 100 (drop (100 * k) ops))) [0..<max a ((length ops + 99) div 100)]"
proof (induction "length ops - 100 * a" arbitrary: a rule: less_induct)
  case less
  show ?case
  proof (cases "100 * a < length ops")
    case True
    have new: "key @ underscore @ toString (100 * a) \<notin> fst ` set (map (\<lambda>k. (key @ underscore @ toString (100 * k), take 100 (drop (100 * k) ops))) [0..<a])"
      by (auto dest!: toString_inj)
    have step: "split_loop key ops (100 * a) (map (\<lambda>k. (key @ underscore @ toString (100 * k), take 100 (drop (100 * k) ops))) [0..<a])
      = split_loop key ops (100 * Suc a) (map (\<lambda>k. (key @ underscore @ toString (100 * k), take 100 (drop (100 * k) ops))) [0..<Suc a])"
      using True by (subst split_loop.simps) (simp add: MAX_BATCH_SIZE_def map_set_new[OF new] add.commute)
    have "length ops - 100 * Suc a < length ops - 100 * a" using True by simp
    from less[OF this] have "split_loop key ops (100 * Suc a) (map (\<lambda>k. (key @ underscore @ toString (100 * k), take 100 (drop (100 * k) ops))) [0..<Suc a])
      = map (\<lambda>k. (key @ underscore @ toString (100 * k), take 100 (drop (100 * k) ops))) [0..<max (Suc a) ((length ops + 99) div 100)]" .
    moreover have "max (Suc a) ((length ops + 99) div 100) = max a ((length ops + 99) div 100)"
      using True by simp
    ultimately show ?thesis using step by simp
  next
    case False
    then have "max a ((length ops + 99) div 100) = a" by simp
    with False show ?thesis by (subst split_loop.simps) simp
  qed
qed

lemma concat_chunks:
  "concat (map (\<lambda>k. take 100 (drop (100 * k) xs)) [0..<m]) = take (100 * m) xs"
proof (induction m)
  case 0
  show ?case by simp
next
  case (Suc m)
  have "take (100 * m) xs @ take 100 (drop (100 * m) xs) = take (100 * m + 100) xs"
    by (simp add: take_add)
  with Suc show ?case by (simp add: add.commute)
qed

lemma group_fold_uniform:
  assumes "\<forall>op \<in> set ops. opMethod op = Submit \<and> leaderboardId (params op) = Some L" and "L \<noteq> []"
  shows "foldl group_step [(L, acc)] ops = [(L, acc @ ops)]"
  using assms
proof (induction ops arbitrary: acc)
  case Nil
  show ?case by simp
next
  case (Cons op ops)
  have "group_step [(L, acc)] op = [(L, acc @ [op])]"
    using Cons.prems by (simp add: group_step_def map_has_def map_push_def)
  with Cons show ?case by simp
qed

lemma group_fold_uniform_empty:
  assumes "\<forall>op \<in> set ops. opMethod op = Submit \<and> leaderboardId (params op) = Some L" and "L \<noteq> []"
    and "ops \<noteq> []"
  shows "foldl group_step [] ops = [(L, ops)]"
proof -
  obtain op rest where ops: "ops = op # rest" using assms(3) by (cases ops) auto
  have "group_step [] op = [(L, [op])]"
    using assms(1,2) ops by (simp add: group_step_def map_has_def map_push_def)
  moreover have "\<forall>op \<in> set rest. opMethod op = Submit \<and> leaderboardId (params op) = Some L"
    using assms(1) ops by simp
  ultimately show ?thesis using group_fold_uniform[OF _ assms(2), of rest "[op]"] ops by simp
qed

lemma queue_cleanExpiredItems:
  "queue (cleanExpiredItems now q) = filter (\<lambda>op. now - timestamp op < QUEUE_TTL_MS) (queue q)"
  by (simp add: cleanExpiredItems_def persistQueue_def Let_def)

lemma batchOperations_fst: "fst (batchOperations now q) = cleanExpiredItems now q"
  by (simp add: batchOperations_def Let_def)

lemma batchOperations_snd:
  "snd (batchOperations now q)
     = foldl limit_step [] (foldl group_step [] (queue (cleanExpiredItems now q)))"
  by (simp add: batchOperations_def Let_def)

text \<open>Operations that the first loop passes over leave the groups as they are.\<close>

lemma group_fold_skipped:
  "\<forall>op \<in> set ops. opMethod op = Submit \<and> \<not> truthy (leaderboardId (params op))
     \<Longrightarrow> foldl group_step groups ops = groups"
  by (induction ops arbitrary: groups) (simp_all add: group_step_def)

lemma example_queue_fresh:
  "now - t < QUEUE_TTL_MS
     \<Longrightarrow> queue (cleanExpiredItems now (example_queue n lb t)) = queue (example_queue n lb t)"
  by (simp add: queue_cleanExpiredItems example_queue_def example_op_def)

lemma example_queue_expired:
  "\<not> now - t < QUEUE_TTL_MS \<Longrightarrow> queue (cleanExpiredItems now (example_queue n lb t)) = []"
  by (simp add: queue_cleanExpiredItems example_queue_def example_op_def)

subsection \<open>What the batches hold\<close>

lemma vals_simps [simp]: "vals [] = {#}" "vals ((k, v) # m) = mset v + vals m"
  by (simp_all add: vals_def)

lemma vals_map_set: "vals (map_set k v m) \<subseteq># mset v + vals m"
proof (induction m)
  case Nil
  show ?case by simp
next
  case (Cons e m)
  obtain k' v' where e: "e = (k', v')" by (cases e)
  show ?case
  proof (cases "k = k'")
    case True
    then show ?thesis by (simp add: e)
  next
    case False
    have "mset v' + vals (map_set k v m) \<subseteq># mset v' + (mset v + vals m)"
      using Cons.IH by (simp only: mset_subset_eq_mono_add_left_cancel)
    then show ?thesis using False by (simp add: e ac_simps)
  qed
qed

lemma vals_map_push: "vals (map_push k x m) \<subseteq># add_mset x (vals m)"
proof (induction m)
  case Nil
  show ?case by (simp add: map_push_def)
next
  case (Cons e m)
  obtain k' v' where e: "e = (k', v')" by (cases e)
  show ?case
  proof (cases "k = k'")
    case True
    then show ?thesis by (simp add: e map_push_def)
  next
    case False
    have "mset v' + vals (map_push k x m) \<subseteq># mset v' + add_mset x (vals m)"
      using Cons.IH by (simp only: mset_subset_eq_mono_add_left_cancel)
    then show ?thesis using False
      by (simp add: e map_push_def split: option.splits)
  qed
qed

lemma group_step_skip: "\<not> grouped op \<Longrightarrow> group_step g op = g"
  by (auto simp add: group_step_def grouped_def)

lemma vals_group_step: "vals (group_step g op) \<subseteq># add_mset op (vals g)"
proof (cases "opMethod op = Submit \<and> truthy (leaderboardId (params op))")
  case True
  let ?key = "the (leaderboardId (params op))"
  let ?g1 = "if \<not> map_has ?key g then map_set ?key [] g else g"
  have "vals ?g1 \<subseteq># vals g" using vals_map_set[of ?key "[]" g] by simp
  moreover have "vals (map_push ?key op ?g1) \<subseteq># add_mset op (vals ?g1)"
    by (rule vals_map_push)
  ultimately have "vals (map_push ?key op ?g1) \<subseteq># add_mset op (vals g)"
    by (meson mset_subset_eq_add_mset_cancel subset_mset.order_trans)
  then show ?thesis using True by (simp add: group_step_def Let_def)
next
  case False
  show ?thesis
  proof (cases "opMethod op = SubmitBulk")
    case True
    then show ?thesis using False vals_map_set[of "bulk_prefix @ queueId op" "[op]" g]
      by (auto simp add: group_step_def)
  next
    case nb: False
    with False show ?thesis by (auto simp add: group_step_def)
  qed
qed

lemma vals_group_fold:
  "vals (foldl group_step g ops) \<subseteq># vals g + mset (filter grouped ops)"
proof (induction ops arbitrary: g)
  case Nil
  show ?case by simp
next
  case (Cons op ops)
  have IH: "vals (foldl group_step (group_step g op) ops)
          \<subseteq># vals (group_step g op) + mset (filter grouped ops)"
    by (rule Cons.IH)
  show ?case
  proof (cases "grouped op")
    case True
    have "vals (group_step g op) + mset (filter grouped ops)
            \<subseteq># add_mset op (vals g) + mset (filter grouped ops)"
      using vals_group_step[of g op] by (simp only: mset_subset_eq_mono_add_right_cancel)
    with IH have "vals (foldl group_step (group_step g op) ops)
            \<subseteq># add_mset op (vals g) + mset (filter grouped ops)"
      by (rule subset_mset.order_trans)
    then show ?thesis using True by simp
  next
    case False
    with IH show ?thesis by (simp add: group_step_skip)
  qed
qed

lemma vals_split_loop:
  "vals (split_loop key ops i lg) \<subseteq># vals lg + mset (drop i ops)"
proof (induction key ops i lg rule: split_loop.induct)
  case (1 key ops i lg)
  show ?case
  proof (cases "i < length ops")
    case True
    let ?chunk = "take MAX_BATCH_SIZE (drop i ops)"
    let ?lg' = "map_set (key @ underscore @ toString i) ?chunk lg"
    have "vals (split_loop key ops (i + MAX_BATCH_SIZE) ?lg')
            \<subseteq># vals ?lg' + mset (drop (i + MAX_BATCH_SIZE) ops)"
      by (rule "1.IH"[OF True])
    also have "\<dots> \<subseteq># (mset ?chunk + vals lg) + mset (drop (i + MAX_BATCH_SIZE) ops)"
      using vals_map_set[of _ ?chunk lg] by (simp only: mset_subset_eq_mono_add_right_cancel)
    also have "\<dots> = vals lg + mset (?chunk @ drop MAX_BATCH_SIZE (drop i ops))"
      by (simp add: ac_simps)
    also have "\<dots> = vals lg + mset (drop i ops)"
      by (simp only: append_take_drop_id)
    finally show ?thesis using True by (subst split_loop.simps) simp
  next
    case False
    then show ?thesis by (subst split_loop.simps) simp
  qed
qed

lemma vals_limit_step: "vals (limit_step lg (k, ops)) \<subseteq># vals lg + mset ops"
  using vals_split_loop[of k ops 0 lg] vals_map_set[of k ops lg]
  by (simp add: limit_step_def ac_simps)

lemma vals_limit_fold: "vals (foldl limit_step lg groups) \<subseteq># vals lg + vals groups"
proof (induction groups arbitrary: lg)
  case Nil
  show ?case by simp
next
  case (Cons e groups)
  obtain k ops where e: "e = (k, ops)" by (cases e)
  have "vals (foldl limit_step (limit_step lg (k, ops)) groups)
          \<subseteq># vals (limit_step lg (k, ops)) + vals groups"
    by (rule Cons.IH)
  also have "\<dots> \<subseteq># (vals lg + mset ops) + vals groups"
    using vals_limit_step[of lg k ops] by (simp only: mset_subset_eq_mono_add_right_cancel)
  finally show ?case by (simp add: e ac_simps)
qed

lemma vals_batchOperations:
  "vals (snd (batchOperations now q)) \<subseteq># mset (filter grouped (queue (cleanExpiredItems now q)))"
  using vals_limit_fold[of "[]" "foldl group_step [] (queue (cleanExpiredItems now q))"]
    vals_group_fold[of "[]" "queue (cleanExpiredItems now q)"]
  by (simp add: batchOperations_snd)

lemma queue_markFailed:
  "queue (markFailed qid True q) = filter (\<lambda>x. queueId x \<noteq> qid) (queue q)"
proof (cases "find (\<lambda>x. queueId x = qid) (queue q)")
  case None
  then have "\<forall>x \<in> set (queue q). queueId x \<noteq> qid" by (simp add: find_None_iff)
  then have "filter (\<lambda>x. queueId x \<noteq> qid) (queue q) = queue q" by (simp add: filter_id_conv)
  with None show ?thesis by (simp add: markFailed_def)
next
  case (Some op)
  then show ?thesis by (simp add: markFailed_def persistQueue_def emit_def)
qed

lemma find_unique:
  "distinct (map queueId xs) \<Longrightarrow> op \<in> set xs \<Longrightarrow> find (\<lambda>x. queueId x = queueId op) xs = Some op"
  by (induction xs) (auto simp add: image_iff)

lemma emitted_markFailed:
  "distinct (map queueId (queue q)) \<Longrightarrow> op \<in> set (queue q)
     \<Longrightarrow> emitted (markFailed (queueId op) True q) = emitted q @ [QueueFailed op True]"
  by (simp add: markFailed_def find_unique persistQueue_def emit_def)

lemma mark_one_queue:
  "dq (mark_one d op) = filter (\<lambda>x. queueId x \<noteq> queueId op) (dq d)"
  by (simp add: mark_one_def on_queue_def dq_def queue_markFailed)

lemma mark_one_requests:
  "requests (client (mark_one d op)) = requests (client d)"
  by (simp add: mark_one_def on_queue_def)

lemmas mark_one_simps = mark_one_queue mark_one_requests

lemma fold_mark_queue:
  "dq (foldl mark_one d ops) = filter (\<lambda>x. queueId x \<notin> set (map queueId ops)) (dq d)"
  by (induction ops arbitrary: d) (simp_all add: mark_one_simps conj_commute)

lemma fold_mark_requests:
  "requests (client (foldl mark_one d ops)) = requests (client d)"
  by (induction ops arbitrary: d) (simp_all add: mark_one_simps)

lemma fold_mark_emitted:
  "distinct (map queueId (dq d)) \<Longrightarrow> set ops \<subseteq> set (dq d) \<Longrightarrow> distinct (map queueId ops)
     \<Longrightarrow> emitted (offlineQueue (client (foldl mark_one d ops)))
           = emitted (offlineQueue (client d)) @ map (\<lambda>op. QueueFailed op True) ops"
proof (induction ops arbitrary: d)
  case Nil
  show ?case by simp
next
  case (Cons op ops)
  have e1: "emitted (offlineQueue (client (mark_one d op)))
              = emitted (offlineQueue (client d)) @ [QueueFailed op True]"
    using Cons.prems(1,2) by (simp add: mark_one_def on_queue_def dq_def emitted_markFailed)
  have d1: "distinct (map queueId (dq (mark_one d op)))"
    using Cons.prems(1) by (simp add: mark_one_simps distinct_map_filter)
  have s1: "set ops \<subseteq> set (dq (mark_one d op))"
    using Cons.prems(2,3) by (auto simp add: mark_one_simps) (metis image_eqI)
  have "emitted (offlineQueue (client (foldl mark_one (mark_one d op) ops)))
          = emitted (offlineQueue (client (mark_one d op))) @ map (\<lambda>op. QueueFailed op True) ops"
    using Cons.prems(3) by (intro Cons.IH[OF d1 s1]) simp
  then show ?case by (simp add: e1)
qed

subsection \<open>A large group among other groups\<close>

lemma map_of_map_set: "map_of (map_set k v m) k' = (if k' = k then Some v else map_of m k')"
  by (induction m) auto

lemma keys_map_set:
  "map fst (map_set k v m) = (if k \<in> fst ` set m then map fst m else map fst m @ [k])"
proof (induction m)
  case Nil
  show ?case by simp
next
  case (Cons e m)
  obtain k' v' where e: "e = (k', v')" by (cases e)
  show ?case using Cons unfolding e by (cases "k = k'") (simp_all split: if_splits)
qed

lemma distinct_map_set: "distinct (map fst m) \<Longrightarrow> distinct (map fst (map_set k v m))"
  by (simp add: keys_map_set)

lemma filter_map_set:
  "filter (\<lambda>e. P (fst e)) (map_set k v m)
     = (if P k then map_set k v (filter (\<lambda>e. P (fst e)) m) else filter (\<lambda>e. P (fst e)) m)"
  by (induction m) auto

lemma group_key_own: "L \<noteq> [] \<Longrightarrow> for_leaderboard L op \<Longrightarrow> group_key op = Some L"
  by (simp add: for_leaderboard_def group_key_def)

lemma map_set_twice: "map_set k v (map_set k v' m) = map_set k v m"
  by (induction m) auto

lemma group_step_key:
  "group_step g op =
     (case group_key op of
        None \<Rightarrow> g
      | Some k \<Rightarrow> if opMethod op = Submit then map_set k (lookup k g @ [op]) g
                  else map_set k [op] g)"
proof (cases "opMethod op")
  case Submit
  show ?thesis
  proof (cases "truthy (leaderboardId (params op))")
    case True
    then obtain k where k: "leaderboardId (params op) = Some k"
      by (cases "leaderboardId (params op)") auto
    show ?thesis
      using Submit True k
      by (cases "map_of g k")
         (simp_all add: group_step_def group_key_def map_has_def map_push_def lookup_def
           map_of_map_set map_set_twice)
  next
    case False
    thus ?thesis using Submit by (simp add: group_step_def group_key_def)
  qed
next
  case SubmitBulk
  thus ?thesis by (simp add: group_step_def group_key_def)
qed

lemma lookup_map_set: "lookup k' (map_set k v m) = (if k' = k then v else lookup k' m)"
  by (simp add: lookup_def map_of_map_set)

lemma lookup_group_step:
  assumes "L \<noteq> []" and "group_key op = Some L \<longrightarrow> for_leaderboard L op"
  shows "lookup L (group_step g op) = lookup L g @ (if for_leaderboard L op then [op] else [])"
proof (cases "group_key op")
  case None
  with group_key_own[OF assms(1)] have "\<not> for_leaderboard L op" by auto
  with None show ?thesis by (simp add: group_step_key)
next
  case (Some k)
  show ?thesis
  proof (cases "k = L")
    case True
    with Some assms(2) have f: "for_leaderboard L op" by simp
    hence "opMethod op = Submit" by (simp add: for_leaderboard_def)
    with Some True f show ?thesis by (simp add: group_step_key lookup_map_set)
  next
    case False
    with Some group_key_own[OF assms(1)] have "\<not> for_leaderboard L op" by auto
    with Some False show ?thesis by (simp add: group_step_key lookup_map_set)
  qed
qed

lemma lookup_group_fold:
  assumes "L \<noteq> []" and "\<forall>op \<in> set ops. group_key op = Some L \<longrightarrow> for_leaderboard L op"
  shows "lookup L (foldl group_step g ops) = lookup L g @ filter (for_leaderboard L) ops"
  using assms(2)
proof (induction ops arbitrary: g)
  case Nil
  show ?case by simp
next
  case (Cons op ops)
  have "lookup L (group_step g op) = lookup L g @ (if for_leaderboard L op then [op] else [])"
    using Cons.prems by (intro lookup_group_step[OF assms(1)]) simp
  moreover have "lookup L (foldl group_step (group_step g op) ops)
      = lookup L (group_step g op) @ filter (for_leaderboard L) ops"
    using Cons.prems by (intro Cons.IH) simp
  ultimately show ?case by simp
qed

lemma keys_group_step:
  "fst ` set (group_step g op) \<subseteq> fst ` set g \<union> {k. group_key op = Some k}"
proof -
  have "set (map fst (group_step g op)) \<subseteq> set (map fst g) \<union> {k. group_key op = Some k}"
    by (auto simp add: group_step_key keys_map_set simp del: set_map split: option.splits)
  thus ?thesis by simp
qed

lemma keys_group_fold:
  "fst ` set (foldl group_step g ops)
     \<subseteq> fst ` set g \<union> {k. \<exists>op \<in> set ops. group_key op = Some k}"
proof (induction ops arbitrary: g)
  case Nil
  show ?case by simp
next
  case (Cons op ops)
  from Cons.IH[of "group_step g op"] keys_group_step[of g op] show ?case by auto
qed

lemma distinct_group_step: "distinct (map fst g) \<Longrightarrow> distinct (map fst (group_step g op))"
  by (simp add: group_step_key distinct_map_set split: option.splits)

lemma distinct_group_fold:
  "distinct (map fst g) \<Longrightarrow> distinct (map fst (foldl group_step g ops))"
  by (induction ops arbitrary: g) (simp_all add: distinct_group_step)

text \<open>The digits of a number hold no underscore, so a split key determines its group key.\<close>

lemma toString_digits: "95 \<notin> set (toString n)"
proof (induction n rule: toString.induct)
  case (1 n)
  show ?case
  proof (cases "n < 10")
    case True
    thus ?thesis by (subst toString.simps) simp
  next
    case False
    have "n mod 10 < 10" by simp
    hence "48 + n mod 10 \<noteq> 95" by linarith
    with "1.IH"[OF False] False show ?thesis by (subst toString.simps) simp
  qed
qed

lemma first_occurrence:
  assumes "c \<notin> set xs" and "c \<notin> set ys" and "xs @ c # as = ys @ c # bs"
  shows "xs = ys \<and> as = bs"
proof -
  have "takeWhile (\<lambda>x. x \<noteq> c) (xs @ c # as) = xs @ takeWhile (\<lambda>x. x \<noteq> c) (c # as)"
    by (rule takeWhile_append2) (use assms(1) in auto)
  moreover have "takeWhile (\<lambda>x. x \<noteq> c) (ys @ c # bs) = ys @ takeWhile (\<lambda>x. x \<noteq> c) (c # bs)"
    by (rule takeWhile_append2) (use assms(2) in auto)
  ultimately have "xs = ys" using assms(3) by simp
  with assms(3) show ?thesis by simp
qed

lemma split_key_inj:
  assumes "k @ underscore @ toString i = L @ underscore @ toString j"
  shows "k = L \<and> i = j"
proof -
  from assms have "rev (k @ underscore @ toString i) = rev (L @ underscore @ toString j)"
    by (simp only:)
  hence "rev (toString i) @ 95 # rev k = rev (toString j) @ 95 # rev L"
    by (simp add: underscore_def)
  moreover have "95 \<notin> set (rev (toString i))" "95 \<notin> set (rev (toString j))"
    using toString_digits by simp_all
  ultimately have "rev (toString i) = rev (toString j) \<and> rev k = rev L"
    by (rule first_occurrence[rotated 2])
  thus ?thesis using toString_inj by auto
qed

lemma split_loop_foreign:
  "\<forall>i. \<not> P (key @ underscore @ toString i)
     \<Longrightarrow> filter (\<lambda>e. P (fst e)) (split_loop key ops i lg) = filter (\<lambda>e. P (fst e)) lg"
proof (induction key ops i lg rule: split_loop.induct)
  case (1 key ops i lg)
  show ?case
  proof (cases "i < length ops")
    case True
    with 1 show ?thesis by (subst split_loop.simps) (simp add: filter_map_set)
  next
    case False
    thus ?thesis by (subst split_loop.simps) simp
  qed
qed

lemma split_loop_own:
  "\<forall>j. i + 100 * j < length ops \<longrightarrow> P (key @ underscore @ toString (i + 100 * j))
     \<Longrightarrow> filter (\<lambda>e. P (fst e)) (split_loop key ops i lg)
           = split_loop key ops i (filter (\<lambda>e. P (fst e)) lg)"
proof (induction key ops i lg rule: split_loop.induct)
  case (1 key ops i lg)
  show ?case
  proof (cases "i < length ops")
    case True
    from "1.prems" have "i + 100 * 0 < length ops \<longrightarrow> P (key @ underscore @ toString (i + 100 * 0))"
      by blast
    hence here: "P (key @ underscore @ toString i)"
      using True by simp
    have later: "\<forall>j. i + MAX_BATCH_SIZE + 100 * j < length ops
                    \<longrightarrow> P (key @ underscore @ toString (i + MAX_BATCH_SIZE + 100 * j))"
    proof (intro allI impI)
      fix j
      assume "i + MAX_BATCH_SIZE + 100 * j < length ops"
      hence "i + 100 * Suc j < length ops" by (simp add: MAX_BATCH_SIZE_def)
      with "1.prems" have "P (key @ underscore @ toString (i + 100 * Suc j))" by blast
      thus "P (key @ underscore @ toString (i + MAX_BATCH_SIZE + 100 * j))"
        by (simp add: MAX_BATCH_SIZE_def add.assoc)
    qed
    from "1.IH"[OF True later] True here show ?thesis
      by (subst split_loop.simps, subst (2) split_loop.simps) (simp add: filter_map_set)
  next
    case False
    thus ?thesis by (subst split_loop.simps, subst (2) split_loop.simps) simp
  qed
qed


lemma limit_step_foreign:
  assumes "k \<noteq> L" and "k \<notin> set (split_keys L n)"
  shows "filter (\<lambda>e. fst e \<in> set (split_keys L n)) (limit_step lg (k, ops))
           = filter (\<lambda>e. fst e \<in> set (split_keys L n)) lg"
proof (cases "length ops > MAX_BATCH_SIZE")
  case True
  have "\<forall>i. k @ underscore @ toString i \<notin> set (split_keys L n)"
    using assms(1) by (auto simp add: split_keys_def dest: split_key_inj)
  from split_loop_foreign[where P = "\<lambda>x. x \<in> set (split_keys L n)", OF this] True
  show ?thesis by (simp add: limit_step_def)
next
  case False
  with assms(2) show ?thesis
    by (simp add: limit_step_def filter_map_set[where P = "\<lambda>x. x \<in> set (split_keys L n)"])
qed

lemma limit_fold_foreign:
  "\<forall>e \<in> set gs. fst e \<noteq> L \<and> fst e \<notin> set (split_keys L n)
     \<Longrightarrow> filter (\<lambda>e. fst e \<in> set (split_keys L n)) (foldl limit_step lg gs)
           = filter (\<lambda>e. fst e \<in> set (split_keys L n)) lg"
proof (induction gs arbitrary: lg)
  case Nil
  show ?case by simp
next
  case (Cons g gs)
  obtain k ops where g: "g = (k, ops)" by (cases g)
  from Cons.prems g have "k \<noteq> L" "k \<notin> set (split_keys L n)" by simp_all
  from limit_step_foreign[OF this] Cons.IH[of "limit_step lg g"] Cons.prems g
  show ?case by simp
qed

lemma limit_step_own:
  assumes "length ops > 100" and "filter (\<lambda>e. fst e \<in> set (split_keys L (length ops))) lg = []"
  shows "filter (\<lambda>e. fst e \<in> set (split_keys L (length ops))) (limit_step lg (L, ops))
           = map (\<lambda>k. (L @ underscore @ toString (100 * k), take 100 (drop (100 * k) ops)))
               [0..<(length ops + 99) div 100]"
proof -
  have own: "\<forall>j. 0 + 100 * j < length ops
               \<longrightarrow> L @ underscore @ toString (0 + 100 * j) \<in> set (split_keys L (length ops))"
  proof (intro allI impI)
    fix j
    assume "0 + 100 * j < length ops"
    hence "j < (length ops + 99) div 100" by linarith
    thus "L @ underscore @ toString (0 + 100 * j) \<in> set (split_keys L (length ops))"
      by (simp add: split_keys_def)
  qed
  have "filter (\<lambda>e. fst e \<in> set (split_keys L (length ops))) (limit_step lg (L, ops))
          = split_loop L ops 0 []"
    using assms split_loop_own[where P = "\<lambda>x. x \<in> set (split_keys L (length ops))", OF own]
    by (simp add: limit_step_def MAX_BATCH_SIZE_def)
  also have "\<dots> = map (\<lambda>k. (L @ underscore @ toString (100 * k), take 100 (drop (100 * k) ops)))
                      [0..<(length ops + 99) div 100]"
    using split_loop_chunks[of L ops 0] by simp
  finally show ?thesis .
qed

text \<open>
  The sub-batches of a large group, when no other group has its key or one of its split
  keys.
\<close>

lemma large_group_batches:
  assumes L: "L \<noteq> []"
    and large: "length (filter (for_leaderboard L) ops) > 100"
    and apart: "\<forall>op \<in> set ops. \<not> for_leaderboard L op
        \<longrightarrow> (\<forall>k \<in> set (L # split_keys L (length (filter (for_leaderboard L) ops))).
               group_key op \<noteq> Some k)"
  shows "filter (\<lambda>e. fst e \<in> set (split_keys L (length (filter (for_leaderboard L) ops))))
           (foldl limit_step [] (foldl group_step [] ops))
         = map (\<lambda>k. (L @ underscore @ toString (100 * k),
                      take 100 (drop (100 * k) (filter (for_leaderboard L) ops))))
             [0..<(length (filter (for_leaderboard L) ops) + 99) div 100]"
proof -
  define opsL where "opsL = filter (for_leaderboard L) ops"
  define groups where "groups = foldl group_step [] ops"
  let ?P = "\<lambda>e. fst e \<in> set (split_keys L (length opsL))"
  have own: "\<forall>op \<in> set ops. group_key op = Some L \<longrightarrow> for_leaderboard L op"
    using apart by auto
  have "lookup L groups = opsL"
    unfolding groups_def opsL_def using lookup_group_fold[OF L own, of "[]"]
    by (simp add: lookup_def)
  moreover have "opsL \<noteq> []" using large by (auto simp: opsL_def)
  ultimately have "map_of groups L = Some opsL"
    by (auto simp add: lookup_def split: option.splits)
  hence "(L, opsL) \<in> set groups" by (rule map_of_SomeD)
  then obtain pre post where sp: "groups = pre @ (L, opsL) # post"
    by (auto dest: split_list)
  have dist: "distinct (map fst groups)"
    unfolding groups_def by (rule distinct_group_fold) simp
  have keys: "fst ` set groups \<subseteq> {k. \<exists>op \<in> set ops. group_key op = Some k}"
    unfolding groups_def using keys_group_fold[of "[]" ops] by simp
  have foreign: "fst e \<noteq> L \<and> fst e \<notin> set (split_keys L (length opsL))"
    if "e \<in> set pre \<union> set post" for e
  proof -
    from that dist sp have ne: "fst e \<noteq> L" by auto
    from that sp have "fst e \<in> fst ` set groups" by auto
    with keys obtain op where op: "op \<in> set ops" "group_key op = Some (fst e)" by auto
    with ne group_key_own[OF L] have "\<not> for_leaderboard L op" by auto
    with apart op have "fst e \<notin> set (split_keys L (length opsL))"
      unfolding opsL_def by auto
    with ne show ?thesis ..
  qed
  have 1: "filter ?P (foldl limit_step [] pre) = []"
    using limit_fold_foreign[of pre L "length opsL" "[]"] foreign by simp
  have 2: "filter ?P (limit_step (foldl limit_step [] pre) (L, opsL))
             = map (\<lambda>k. (L @ underscore @ toString (100 * k), take 100 (drop (100 * k) opsL)))
                 [0..<(length opsL + 99) div 100]"
    using large 1 by (intro limit_step_own) (simp_all add: opsL_def)
  have "filter ?P (foldl limit_step [] groups)
          = filter ?P (foldl limit_step (limit_step (foldl limit_step [] pre) (L, opsL)) post)"
    by (simp add: sp)
  also have "\<dots> = filter ?P (limit_step (foldl limit_step [] pre) (L, opsL))"
    using limit_fold_foreign[of post L "length opsL"] foreign by simp
  also note 2
  finally show ?thesis unfolding groups_def opsL_def .
qed


lemma vals_partition: "vals m = vals (filter P m) + vals (filter (\<lambda>e. \<not> P e) m)"
  by (induction m) (auto simp: vals_def)

lemma no_stray_operations:
  assumes own: "vals (filter P r) = mset (filter Q xs)"
    and sub: "vals r \<subseteq># mset xs"
    and e: "e \<in> set r" "\<not> P e" and x: "x \<in> set (snd e)"
  shows "\<not> Q x"
proof
  assume q: "Q x"
  obtain k g where kg: "e = (k, g)" by (cases e)
  from e x have "x \<in># vals (filter (\<lambda>e. \<not> P e) r)"
    unfolding kg by (auto simp add: vals_def)
  hence "0 < count (vals (filter (\<lambda>e. \<not> P e) r)) x" by (simp only: count_greater_zero_iff)
  moreover have "count (vals r) x = count (vals (filter P r)) x
                   + count (vals (filter (\<lambda>e. \<not> P e) r)) x"
    by (subst vals_partition[of r P]) simp
  moreover have "count (vals (filter P r)) x = count (mset xs) x"
    using q by (simp add: own)
  moreover have "count (vals r) x \<le> count (mset xs) x"
    using sub by (rule mset_subset_eq_count)
  ultimately show False by linarith
qed

subsection \<open>The drain loop\<close>

lemma dq_simps [simp]:
  "dq (emit_progress d) = dq d"
  "dq (on_queue (removeProcessed ids) d) = filter (\<lambda>x. queueId x \<notin> set ids) (dq d)"
  "dq (d\<lparr>totalProcessed := n\<rparr>) = dq d"
  "dq (d\<lparr>client := (client d)\<lparr>requests := r\<rparr>\<rparr>) = dq d"
  by (simp_all add: dq_def emit_progress_def on_queue_def emit_def removeProcessed_def
      persistQueue_def)

lemma processBatch_failed:
  assumes "batch_call key ops = Some body"
    and "net (length (requests (client d))) = HttpFailed st"
  shows "processBatch net (key, ops) d
           = catch_block st ops
               (d\<lparr>client := (client d)\<lparr>requests := requests (client d)
                                             @ [(''/v1/scores/bulk'', body)]\<rparr>\<rparr>)"
  using assms
  by (auto simp add: processBatch_def batch_call_def request_def split: list.splits)

text \<open>Every iteration only removes operations, and only ones whose id is in its batch.\<close>

lemma processBatch_queue:
  assumes run: "processBatch net (key, ops) d = (d', c)"
  shows "\<exists>R. R \<subseteq> queueId ` set ops \<and> dq d' = filter (\<lambda>x. queueId x \<notin> R) (dq d)"
proof -
  have keep: "dq d' = dq d \<Longrightarrow> ?thesis"
    by (rule exI[of _ "{}"]) simp
  have all: "dq d' = filter (\<lambda>x. queueId x \<notin> set (map queueId ops)) (dq d) \<Longrightarrow> ?thesis"
    by (rule exI[of _ "queueId ` set ops"]) simp
  have one: "\<And>op rest. ops = op # rest \<Longrightarrow> dq d' = filter (\<lambda>x. queueId x \<notin> set [queueId op]) (dq d)
     \<Longrightarrow> ?thesis"
    by (rule_tac x = "{queueId op}" in exI) simp
  show ?thesis
  proof (cases "batch_call key ops")
    case None
    with run have "dq d' = dq d"
      by (auto simp add: processBatch_def batch_call_def split: list.splits if_splits)
    then show ?thesis by (rule keep)
  next
    case (Some body)
    show ?thesis
    proof (cases "net (length (requests (client d)))")
      case HttpOk
      show ?thesis
      proof (cases "startsWith key bulk_prefix")
        case True
        with Some obtain op rest where ops: "ops = op # rest"
          by (auto simp add: batch_call_def split: list.splits)
        with run True Some HttpOk have "dq d' = filter (\<lambda>x. queueId x \<notin> set [queueId op]) (dq d)"
          by (auto simp add: processBatch_def batch_call_def request_def)
        with ops show ?thesis by (rule one)
      next
        case False
        with run Some HttpOk have "dq d' = filter (\<lambda>x. queueId x \<notin> set (map queueId ops)) (dq d)"
          by (auto simp add: processBatch_def batch_call_def request_def)
        then show ?thesis by (rule all)
      qed
    next
      case (HttpFailed st)
      from run have cb: "catch_block st ops
               (d\<lparr>client := (client d)\<lparr>requests := requests (client d)
                                             @ [(''/v1/scores/bulk'', body)]\<rparr>\<rparr>) = (d', c)"
        using processBatch_failed[of key ops body net d st] Some HttpFailed by simp
      show ?thesis
      proof (cases "is_permanent st")
        case True
        with cb have "dq d' = filter (\<lambda>x. queueId x \<notin> set (map queueId ops)) (dq d)"
          by (auto simp add: catch_block_def fold_mark_queue)
        then show ?thesis by (rule all)
      next
        case False
        with cb have "dq d' = dq d" by (auto simp add: catch_block_def)
        then show ?thesis by (rule keep)
      qed
    qed
  qed
qed

lemma processBatches_queue:
  "processBatches net bs d = (d', c)
     \<Longrightarrow> \<exists>R. R \<subseteq> queueId ` set (concat (map snd bs))
            \<and> dq d' = filter (\<lambda>x. queueId x \<notin> R) (dq d)"
proof (induction bs arbitrary: d)
  case Nil
  then show ?case by simp
next
  case (Cons e bs)
  obtain key ops where e: "e = (key, ops)" by (cases e)
  obtain d1 c1 where step: "processBatch net (key, ops) d = (d1, c1)"
    by (cases "processBatch net (key, ops) d")
  from processBatch_queue[OF step] obtain R1
    where R1: "R1 \<subseteq> queueId ` set ops" "dq d1 = filter (\<lambda>x. queueId x \<notin> R1) (dq d)"
    by blast
  show ?case
  proof (cases c1)
    case Continue
    with Cons.prems step e have "processBatches net bs d1 = (d', c)" by simp
    from Cons.IH[OF this] obtain R2
      where R2: "R2 \<subseteq> queueId ` set (concat (map snd bs))"
        "dq d' = filter (\<lambda>x. queueId x \<notin> R2) (dq d1)"
      by blast
    have "dq d' = filter (\<lambda>x. queueId x \<notin> R1 \<union> R2) (dq d)"
      using R1(2) R2(2) by (simp add: conj_commute)
    moreover have "R1 \<union> R2 \<subseteq> queueId ` set (concat (map snd (e # bs)))"
      using R1(1) R2(1) e by (simp add: image_Un) blast
    ultimately show ?thesis by blast
  next
    case Break
    with Cons.prems step e have "d' = d1" by simp
    moreover have "R1 \<subseteq> queueId ` set (concat (map snd (e # bs)))"
      using R1(1) e by (simp add: image_Un) blast
    ultimately show ?thesis using R1(2) by blast
  qed
qed

lemma processBatches_append:
  "processBatches net (xs @ ys) d
     = (case processBatches net xs d of
          (d', Continue) \<Rightarrow> processBatches net ys d'
        | (d', Break) \<Rightarrow> (d', Break))"
  by (induction xs arbitrary: d) (auto split: prod.splits loop_ctl.splits)

lemma distinct_mset_subseteq:
  assumes "mset xs \<subseteq># mset ys" and "distinct ys"
  shows "distinct xs"
proof -
  from assms(1) obtain C where "mset ys = mset xs + C"
    by (auto simp add: mset_subset_eq_exists_conv)
  moreover obtain zs where "C = mset zs" by (metis ex_mset)
  ultimately have "mset (xs @ zs) = mset ys" by simp
  then have "distinct (xs @ zs) \<longleftrightarrow> distinct ys" by (rule mset_eq_imp_distinct_iff)
  with assms(2) show ?thesis by simp
qed

lemma distinct_map_mset_subseteq:
  assumes "mset xs \<subseteq># mset ys" and "distinct (map f ys)"
  shows "distinct (map f xs)"
proof -
  have "mset (map f xs) \<subseteq># mset (map f ys)"
    using assms(1) by (simp add: image_mset_subseteq_mono)
  then show ?thesis using assms(2) by (rule distinct_mset_subseteq)
qed

lemma batchOperations_setProcessing:
  "snd (batchOperations now (setProcessing b q)) = snd (batchOperations now q)"
  "queue (fst (batchOperations now (setProcessing b q))) = queue (cleanExpiredItems now q)"
  by (simp_all add: batchOperations_snd batchOperations_fst queue_cleanExpiredItems
      setProcessing_def)

lemma batches_in_queue:
  "mset (concat (map snd (snd (batchOperations now q))))
     \<subseteq># mset (queue (cleanExpiredItems now q))"
proof -
  have "mset (filter grouped (queue (cleanExpiredItems now q)))
          \<subseteq># mset (queue (cleanExpiredItems now q))"
    by simp
  with vals_batchOperations[of now q] show ?thesis
    unfolding vals_def by (rule subset_mset.order_trans)
qed

lemma dq_drain_start: "dq (drain_start now s) = queue (cleanExpiredItems now (offlineQueue s))"
  by (simp add: dq_def drain_start_def batchOperations_setProcessing)

lemma batches_grouped:
  "x \<in> set (concat (map snd (snd (batchOperations now q))))
     \<Longrightarrow> grouped x \<and> x \<in> set (queue (cleanExpiredItems now q))"
  using set_mset_mono[OF vals_batchOperations[of now q]] by (auto simp add: vals_def)

lemma filter_all_ids: "filter (\<lambda>op. queueId op \<notin> set (map queueId ops)) ops = []"
  by (simp add: filter_empty_conv)

subsection \<open>The invariant of the WebSocket client\<close>

lemma perm_frame_refl [simp]: "perm_frame s s"
  by (simp add: perm_frame_def)

lemma perm_frame_trans: "perm_frame s s1 \<Longrightarrow> perm_frame s1 s2 \<Longrightarrow> perm_frame s s2"
  by (simp add: perm_frame_def)

lemma perm_frame_inv: "perm_frame s s' \<Longrightarrow> perm_inv s \<Longrightarrow> perm_inv s'"
  by (simp add: perm_frame_def perm_inv_def)

lemma frame_helpers [simp]:
  "perm_frame s (handleError e s)"
  "perm_frame s (stopPingInterval s)"
  "perm_frame s (startPingInterval s)"
  "perm_frame s (clear_reconnectTimer s)"
  "perm_frame s (set_readyState w r s)"
  "perm_frame s (socket_close w s)"
  "perm_frame s (scheduleReconnect x s)"
  "perm_frame s (ping_interval_fired s)"
  by (simp_all add: perm_frame_def handleError_def stopPingInterval_def startPingInterval_def
      clear_reconnectTimer_def set_readyState_def socket_close_def scheduleReconnect_def
      ping_interval_fired_def send_def Let_def split: option.splits)

lemma frame_send: "send m s = Inr s1 \<Longrightarrow> perm_frame s s1"
  by (auto simp add: send_def perm_frame_def split: option.splits if_splits)

lemma frame_subscribe [simp]: "perm_frame s (fst (subscribe lb uid s))"
  by (auto simp add: subscribe_def send_def perm_frame_def split: option.splits)

lemma frame_unsubscribe [simp]: "perm_frame s (fst (unsubscribe lb s))"
  by (auto simp add: unsubscribe_def send_def perm_frame_def split: option.splits)

lemma frame_resubscribe [simp]: "perm_frame s (resubscribe ls c s)"
proof (induction ls arbitrary: s)
  case Nil
  show ?case by simp
next
  case (Cons l ls)
  show ?case
  proof (cases "subscribe l None s")
    case (Pair s1 err)
    have f1: "perm_frame s s1" using frame_subscribe[of s l None] Pair by simp
    show ?thesis
      using Pair f1 perm_frame_trans[OF f1 Cons.IH[of s1]] Cons.IH[of s]
      by (cases err) simp_all
  qed
qed

lemma frame_onopen [simp]: "perm_frame s (onopen s)"
proof -
  let ?s3 = "(startPingInterval (s\<lparr>isConnecting := False, reconnectAttempts := 0\<rparr>))"
  have "perm_frame s ?s3"
    using frame_helpers(3)[of "s\<lparr>isConnecting := False, reconnectAttempts := 0\<rparr>"]
    by (simp add: perm_frame_def)
  then have "perm_frame s (?s3\<lparr>calls := calls ?s3 @ [OnConnect]\<rparr>)"
    by (simp add: perm_frame_def)
  then show ?thesis
    unfolding onopen_def Let_def by (rule perm_frame_trans) simp
qed

lemma inv_connect: "perm_inv s \<Longrightarrow> perm_inv (connect ok lb uid s)"
  by (simp add: connect_def perm_inv_def handleError_def Let_def)

lemma connect_no_error: "permanentError s = None \<Longrightarrow> permanentError (connect ok lb uid s) = None"
  by (simp add: connect_def handleError_def Let_def)

lemma inv_disconnect: "perm_inv (disconnect s)"
proof -
  have "perm_frame (s\<lparr>shouldReconnect := False\<rparr>) (disconnect s)"
    by (simp add: disconnect_def cleanup_def perm_frame_def clear_reconnectTimer_def
        stopPingInterval_def socket_close_def set_readyState_def Let_def split: option.splits)
  then show ?thesis by (rule perm_frame_inv) (simp add: perm_inv_def)
qed

lemma inv_handleMessage: "perm_inv s \<Longrightarrow> perm_inv (fst (handleMessage msg s))"
  by (cases msg)
     (auto simp add: handleMessage_def perm_inv_def handleError_def send_def socket_close_def
        set_readyState_def Let_def split: option.splits sum.splits)

lemma inv_onmessage: "perm_inv s \<Longrightarrow> perm_inv (onmessage data s)"
proof (cases data)
  case None
  then show "perm_inv s \<Longrightarrow> ?thesis"
    by (simp add: onmessage_def perm_inv_def handleError_def)
next
  case (Some msg)
  assume "perm_inv s"
  then have "perm_inv (fst (handleMessage msg s))" by (rule inv_handleMessage)
  then show ?thesis using Some
    by (cases "handleMessage msg s")
       (auto simp add: onmessage_def perm_inv_def handleError_def split: bool.splits)
qed

lemma frame_onclose [simp]: "perm_frame s (onclose code reason r s)"
  by (simp add: onclose_def perm_frame_def stopPingInterval_def scheduleReconnect_def
      handleError_def Let_def split: option.splits)

lemma inv_handleOnline: "perm_inv s \<Longrightarrow> perm_inv (handleOnline ok s)"
  using inv_connect[of "s\<lparr>netOnline := True\<rparr>" ok None None]
  by (simp add: handleOnline_def perm_inv_def Let_def)

lemma inv_handleOffline: "perm_inv s \<Longrightarrow> perm_inv (handleOffline s)"
  by (simp add: handleOffline_def perm_inv_def clear_reconnectTimer_def split: option.splits)

lemma inv_reconnect: "perm_inv s \<Longrightarrow> perm_inv (fst (reconnect ok s))"
  using connect_no_error[of "s\<lparr>reconnectAttempts := 0, shouldReconnect := True\<rparr>" ok None None]
  by (auto simp add: reconnect_def perm_inv_def Let_def split: option.splits)

lemma inv_timer: "perm_inv s \<Longrightarrow> perm_inv (reconnect_timer_fired ok r s)"
  using inv_connect[of s ok None None] perm_frame_inv[OF frame_helpers(7)[of s r]]
  by (simp add: reconnect_timer_fired_def)

lemma inv_step: "perm_inv s \<Longrightarrow> perm_inv (step e s)"
proof (cases e)
  case (SocketOpen w)
  assume i: "perm_inv s"
  have "perm_frame s (onopen (set_readyState w OPEN s))"
    by (rule perm_frame_trans[OF frame_helpers(5) frame_onopen])
  with i SocketOpen show ?thesis by (auto intro: perm_frame_inv)
next
  case (SocketClose w code reason r)
  assume i: "perm_inv s"
  have "perm_frame s (onclose code reason r (set_readyState w CLOSED s))"
    by (rule perm_frame_trans[OF frame_helpers(5) frame_onclose])
  with i SocketClose show ?thesis by (auto intro: perm_frame_inv)
next
  case (TimeoutFires t ok r)
  assume i: "perm_inv s"
  then have "perm_inv (s\<lparr>timeouts := filter (\<lambda>p. fst p \<noteq> t) (timeouts s)\<rparr>)"
    by (simp add: perm_inv_def)
  then have "perm_inv (reconnect_timer_fired ok r (s\<lparr>timeouts := filter (\<lambda>p. fst p \<noteq> t) (timeouts s)\<rparr>))"
    by (rule inv_timer)
  with i TimeoutFires show ?thesis by simp
qed (auto simp add: inv_connect inv_disconnect inv_reconnect inv_onmessage inv_handleOnline
      inv_handleOffline onerror_def
      intro: perm_frame_inv[OF frame_subscribe] perm_frame_inv[OF frame_unsubscribe]
        perm_frame_inv[OF frame_helpers(1)] perm_frame_inv[OF frame_helpers(8)])

lemma inv_run: "perm_inv s \<Longrightarrow> perm_inv (run evs s)"
  unfolding run_def by (induction evs arbitrary: s) (simp_all add: inv_step)

lemma open_has_socket: "wsReadyState s = Some OPEN \<Longrightarrow> \<exists>w. ws s = Some w"
  by (cases "ws s") (simp_all add: wsReadyState_def)

lemma connect_proceeds:
  "\<not> isConnected s \<Longrightarrow> \<not> isConnecting s
     \<Longrightarrow> constructed (connect ok lb uid s) = constructed s + 1
       \<and> reconnectAttempts (connect ok lb uid s) = reconnectAttempts s"
  by (simp add: connect_def handleError_def Let_def)

subsection \<open>After disconnect\<close>

lemma quiet_frame_refl [simp]: "quiet_frame s s"
  by (simp add: quiet_frame_def)

lemma quiet_frame_trans: "quiet_frame s s1 \<Longrightarrow> quiet_frame s1 s2 \<Longrightarrow> quiet_frame s s2"
  by (simp add: quiet_frame_def)

lemma quiet_frame_quiet: "quiet_frame s s' \<Longrightarrow> quiet s n \<Longrightarrow> quiet s' n"
  by (simp add: quiet_frame_def quiet_def)

lemma quiet_helpers [simp]:
  "quiet_frame s (handleError e s)"
  "quiet_frame s (stopPingInterval s)"
  "quiet_frame s (startPingInterval s)"
  "quiet_frame s (set_readyState w r s)"
  "quiet_frame s (socket_close w s)"
  "quiet_frame s (ping_interval_fired s)"
  by (simp_all add: quiet_frame_def handleError_def stopPingInterval_def startPingInterval_def
      set_readyState_def socket_close_def ping_interval_fired_def send_def Let_def
      split: option.splits)

lemma quiet_subscribe [simp]: "quiet_frame s (fst (subscribe lb uid s))"
  by (auto simp add: subscribe_def send_def quiet_frame_def split: option.splits)

lemma quiet_unsubscribe [simp]: "quiet_frame s (fst (unsubscribe lb s))"
  by (auto simp add: unsubscribe_def send_def quiet_frame_def split: option.splits)

lemma quiet_resubscribe [simp]: "quiet_frame s (resubscribe ls c s)"
proof (induction ls arbitrary: s)
  case Nil
  show ?case by simp
next
  case (Cons l ls)
  show ?case
  proof (cases "subscribe l None s")
    case (Pair s1 err)
    have f1: "quiet_frame s s1" using quiet_subscribe[of s l None] Pair by simp
    show ?thesis
      using Pair f1 quiet_frame_trans[OF f1 Cons.IH[of s1]] Cons.IH[of s]
      by (cases err) simp_all
  qed
qed

lemma quiet_onopen [simp]: "quiet_frame s (onopen s)"
proof -
  let ?s3 = "(startPingInterval (s\<lparr>isConnecting := False, reconnectAttempts := 0\<rparr>))"
  have "quiet_frame s ?s3"
    using quiet_helpers(3)[of "s\<lparr>isConnecting := False, reconnectAttempts := 0\<rparr>"]
    by (simp add: quiet_frame_def)
  then have "quiet_frame s (?s3\<lparr>calls := calls ?s3 @ [OnConnect]\<rparr>)"
    by (simp add: quiet_frame_def)
  then show ?thesis
    unfolding onopen_def Let_def by (rule quiet_frame_trans) simp
qed

lemma quiet_handleMessage: "quiet s n \<Longrightarrow> quiet (fst (handleMessage msg s)) n"
  by (cases msg)
     (auto simp add: handleMessage_def quiet_def handleError_def send_def socket_close_def
        set_readyState_def Let_def split: option.splits sum.splits)

lemma quiet_onmessage: "quiet s n \<Longrightarrow> quiet (onmessage data s) n"
proof (cases data)
  case None
  then show "quiet s n \<Longrightarrow> ?thesis"
    by (simp add: onmessage_def quiet_def handleError_def)
next
  case (Some msg)
  assume "quiet s n"
  then have "quiet (fst (handleMessage msg s)) n" by (rule quiet_handleMessage)
  then show ?thesis using Some
    by (cases "handleMessage msg s")
       (auto simp add: onmessage_def quiet_def handleError_def split: bool.splits)
qed

lemma quiet_onclose: "quiet s n \<Longrightarrow> quiet (onclose code reason r s) n"
  by (simp add: onclose_def quiet_def stopPingInterval_def Let_def split: option.splits)

lemma quiet_disconnect_again: "quiet s n \<Longrightarrow> quiet (disconnect s) n"
  by (simp add: disconnect_def cleanup_def quiet_def clear_reconnectTimer_def
      stopPingInterval_def socket_close_def set_readyState_def Let_def split: option.splits)

lemma quiet_handleOnline: "quiet s n \<Longrightarrow> quiet (handleOnline ok s) n"
  by (simp add: handleOnline_def quiet_def Let_def)

lemma quiet_handleOffline: "quiet s n \<Longrightarrow> quiet (handleOffline s) n"
  by (simp add: handleOffline_def quiet_def clear_reconnectTimer_def split: option.splits)

lemma quiet_step: "quiet s n \<Longrightarrow> \<not> is_connect_call e \<Longrightarrow> quiet (step e s) n"
proof (cases e)
  case (SocketOpen w)
  assume q: "quiet s n"
  have "quiet_frame s (onopen (set_readyState w OPEN s))"
    by (rule quiet_frame_trans[OF quiet_helpers(4) quiet_onopen])
  with q SocketOpen show ?thesis by (auto intro: quiet_frame_quiet)
next
  case (SocketClose w code reason r)
  assume q: "quiet s n"
  have "quiet (set_readyState w CLOSED s) n"
    using q by (rule quiet_frame_quiet[OF quiet_helpers(4)])
  then have "quiet (onclose code reason r (set_readyState w CLOSED s)) n"
    by (rule quiet_onclose)
  with q SocketClose show ?thesis by simp
next
  case (TimeoutFires t ok r)
  assume "quiet s n"
  with TimeoutFires show ?thesis by (simp add: quiet_def)
qed (auto simp add: is_connect_call_def quiet_disconnect_again quiet_onmessage
      quiet_handleOnline quiet_handleOffline onerror_def
      intro: quiet_frame_quiet[OF quiet_subscribe] quiet_frame_quiet[OF quiet_unsubscribe]
        quiet_frame_quiet[OF quiet_helpers(1)] quiet_frame_quiet[OF quiet_helpers(6)])

lemma quiet_run:
  "quiet s n \<Longrightarrow> list_all (\<lambda>e. \<not> is_connect_call e) evs \<Longrightarrow> quiet (run evs s) n"
  unfolding run_def by (induction evs arbitrary: s) (simp_all add: quiet_step)

lemma disconnect_quiet:
  assumes "list_all (\<lambda>p. reconnectTimer s = Some (fst p)) (timeouts s)"
  shows "quiet (disconnect s) (constructed s)"
proof (cases "reconnectTimer s")
  case None
  with assms have "timeouts s = []" by (cases "timeouts s") simp_all
  with None show ?thesis
    by (simp add: disconnect_def cleanup_def quiet_def clear_reconnectTimer_def
        stopPingInterval_def socket_close_def set_readyState_def Let_def split: option.splits)
next
  case (Some t)
  with assms have "filter (\<lambda>p. fst p \<noteq> t) (timeouts s) = []"
    by (auto simp add: filter_empty_conv list_all_iff)
  with Some show ?thesis
    by (simp add: disconnect_def cleanup_def quiet_def clear_reconnectTimer_def
        stopPingInterval_def socket_close_def set_readyState_def Let_def split: option.splits)
qed

subsection \<open>Double arithmetic\<close>

text \<open>
  Rounding never crosses a double: a double below (above) a real is below (above) its
  rounding. Hence rounding is the identity on doubles.
\<close>

lemma ilog2_ge1:
  assumes "1 \<le> x"
  shows "2 powi (ilog2 x) \<le> x \<and> x < 2 powi (ilog2 x + 1)"
proof -
  define n where "n = \<lfloor>x\<rfloor>"
  have n: "0 < n" using assms by (simp add: n_def)
  have b1: "1 \<le> bitlen n" using n by (simp add: bitlen_alt_def)
  from bitlen_bounds[OF n] have lo: "2 ^ nat (bitlen n - 1) \<le> n" and hi: "n < 2 ^ nat (bitlen n)"
    by simp_all
  have il: "ilog2 x = bitlen n - 1" using assms by (simp add: ilog2_def n_def)
  have "real_of_int (2 ^ nat (bitlen n - 1)) \<le> of_int n" using lo by linarith
  also have "\<dots> \<le> x" by (simp add: n_def)
  finally have 1: "2 powi (ilog2 x) \<le> x"
    using b1 by (simp add: il power_int_nonneg_exp)
  have "n + 1 \<le> 2 ^ nat (bitlen n)" using hi by simp
  hence "real_of_int (n + 1) \<le> real_of_int (2 ^ nat (bitlen n))" by linarith
  moreover have "x < of_int (n + 1)" by (simp add: n_def)
  ultimately have "x < 2 ^ nat (bitlen n)" by simp
  hence 2: "x < 2 powi (ilog2 x + 1)"
    using b1 by (simp add: il power_int_nonneg_exp)
  from 1 2 show ?thesis ..
qed

lemma ilog2_lt1:
  assumes "0 < x" "x < 1"
  shows "2 powi (ilog2 x) \<le> x \<and> x < 2 powi (ilog2 x + 1)"
proof -
  define y where "y = 1 / x"
  define n where "n = \<lfloor>y\<rfloor>"
  define k where "k = bitlen n"
  have y1: "1 < y" using assms by (simp add: y_def)
  have xy: "x = 1 / y" by (simp add: y_def)
  have n: "0 < n" using y1 by (simp add: n_def)
  have k1: "1 \<le> k" using n by (simp add: k_def bitlen_alt_def)
  from bitlen_bounds[OF n] have lo: "2 ^ nat (k - 1) \<le> n" and hi: "n < 2 ^ nat k"
    by (simp_all add: k_def)
  have "real_of_int (2 ^ nat (k - 1)) \<le> of_int n" using lo by linarith
  also have "\<dots> \<le> y" by (simp add: n_def)
  finally have ylo: "2 ^ nat (k - 1) \<le> y" by simp
  have "n + 1 \<le> 2 ^ nat k" using hi by simp
  hence "real_of_int (n + 1) \<le> real_of_int (2 ^ nat k)" by linarith
  moreover have "y < of_int (n + 1)" by (simp add: n_def)
  ultimately have yhi: "y < 2 ^ nat k" by simp
  have p1: "(2::real) powi (1 - k) = 1 / 2 ^ nat (k - 1)"
    using k1 power_int_minus_divide[of "2::real" "k - 1"] by (simp add: power_int_nonneg_exp)
  have p2: "(2::real) powi (- k) = 1 / 2 ^ nat k"
    using k1 power_int_minus_divide[of "2::real" "k"] by (simp add: power_int_nonneg_exp)
  have p3: "(2::real) powi (2 - k) = 2 * (1 / 2 ^ nat (k - 1))"
    using p1 power_int_add_1[of "2::real" "1 - k"] by (simp add: algebra_simps)
  show ?thesis
  proof (cases "x * 2 ^ nat (k - 1) = 1")
    case True
    hence il: "ilog2 x = 1 - k" using assms by (simp add: ilog2_def k_def n_def y_def Let_def)
    from True have "x = 1 / 2 ^ nat (k - 1)" by (simp add: field_simps)
    thus ?thesis unfolding il using p1 p3 by (simp add: divide_strict_right_mono)
  next
    case False
    hence il: "ilog2 x = - k" using assms by (simp add: ilog2_def k_def n_def y_def Let_def)
    from False have "y \<noteq> 2 ^ nat (k - 1)" using assms by (auto simp: y_def field_simps)
    with ylo have "2 ^ nat (k - 1) < y" by simp
    hence "x < 1 / 2 ^ nat (k - 1)" unfolding xy using y1
      by (simp add: field_simps)
    moreover have "1 / 2 ^ nat k < x" unfolding xy using yhi y1 by (simp add: field_simps)
    ultimately show ?thesis unfolding il using p1 p2 by simp
  qed
qed

lemma ilog2_bounds:
  "0 < x \<Longrightarrow> 2 powi (ilog2 x) \<le> x \<and> x < 2 powi (ilog2 x + 1)"
  using ilog2_ge1[of x] ilog2_lt1[of x] by (cases "1 \<le> x") auto

lemma rte_bounds: "\<lfloor>m\<rfloor> \<le> roundTiesToEven m \<and> roundTiesToEven m \<le> \<lceil>m\<rceil>"
proof -
  have "m - of_int \<lfloor>m\<rfloor> \<ge> 1 / 2 \<Longrightarrow> \<lfloor>m\<rfloor> + 1 \<le> \<lceil>m\<rceil>"
    by linarith
  thus ?thesis by (auto simp: roundTiesToEven_def Let_def)
qed


lemma rte_of_int [simp]: "roundTiesToEven (of_int z) = z"
  using rte_bounds[of "of_int z"] by simp

lemma fp_pos_unfold:
  "fp_pos x = of_int (roundTiesToEven (x / 2 powi (max (ilog2 x - 52) (- 1074))))
                * 2 powi (max (ilog2 x - 52) (- 1074))"
  by (simp add: fp_pos_def Let_def)

lemma fp_pos_nonneg: "0 < x \<Longrightarrow> 0 \<le> fp_pos x"
proof -
  assume x: "0 < x"
  define e where "e = max (ilog2 x - 52) (- 1074)"
  have "0 \<le> x / 2 powi e" using x by simp
  hence "0 \<le> \<lfloor>x / 2 powi e\<rfloor>" by simp
  with rte_bounds[of "x / 2 powi e"] have "0 \<le> roundTiesToEven (x / 2 powi e)" by linarith
  thus ?thesis unfolding fp_pos_unfold e_def[symmetric] by simp
qed

lemma scaled_int:
  assumes "e \<le> j"
  shows "of_int k * 2 powi j = real_of_int (k * 2 ^ nat (j - e)) * 2 powi e"
proof -
  have "(2::real) powi j = 2 powi (j - e) * 2 powi e"
    using power_int_add[of "2::real" "j - e" e] by simp
  moreover have "(2::real) powi (j - e) = 2 ^ nat (j - e)"
    using assms by (simp add: power_int_nonneg_exp)
  ultimately show ?thesis by simp
qed

lemma small_significand:
  assumes "j < e" "\<bar>k\<bar> \<le> 2 ^ 53"
  shows "real_of_int k * 2 powi j \<le> 2 ^ 52 * 2 powi e"
proof -
  have "k \<le> 2 ^ 53" using assms(2) by simp
  hence "real_of_int k \<le> real_of_int (2 ^ 53)" by (simp only: of_int_le_iff)
  hence "real_of_int k \<le> 2 ^ 53" by simp
  hence "real_of_int k * 2 powi j \<le> 2 ^ 53 * 2 powi j"
    by (simp add: mult_right_mono)
  also have "(2::real) powi j \<le> 2 powi (e - 1)"
    using assms(1) by (simp add: power_int_increasing)
  hence "(2::real) ^ 53 * 2 powi j \<le> 2 ^ 53 * 2 powi (e - 1)" by simp
  also have "(2::real) powi e = 2 powi (e - 1) * 2"
    using power_int_add_1[of "2::real" "e - 1"] by simp
  hence "(2::real) ^ 53 * 2 powi (e - 1) = 2 ^ 52 * 2 powi e" by simp
  finally show ?thesis .
qed

lemma normal_significand:
  assumes "0 < x" "- 1074 < max (ilog2 x - 52) (- 1074)"
  shows "2 ^ 52 * 2 powi (max (ilog2 x - 52) (- 1074)) \<le> x"
proof -
  have e: "max (ilog2 x - 52) (- 1074) = ilog2 x - 52" using assms(2) by simp
  have "(2::real) powi (ilog2 x) = 2 powi 52 * 2 powi (ilog2 x - 52)"
    using power_int_add[of "2::real" 52 "ilog2 x - 52"] by simp
  thus ?thesis using ilog2_bounds[OF assms(1)] unfolding e by simp
qed

lemma fp_pos_lower:
  assumes x: "0 < x" and k: "\<bar>k\<bar> \<le> 2 ^ 53" and j: "- 1074 \<le> j"
    and le: "of_int k * 2 powi j \<le> x"
  shows "of_int k * 2 powi j \<le> fp_pos x"
proof -
  define e where "e = max (ilog2 x - 52) (- 1074)"
  define m where "m = x / 2 powi e"
  define n where "n = roundTiesToEven m"
  have P: "(0::real) < 2 powi e" by simp
  have fl: "\<lfloor>m\<rfloor> \<le> n" using rte_bounds[of m] by (simp add: n_def)
  have f: "fp_pos x = of_int n * 2 powi e"
    unfolding fp_pos_unfold e_def[symmetric] m_def[symmetric] n_def ..
  have xm: "x = m * 2 powi e" by (simp add: m_def)
  show ?thesis
  proof (cases "e \<le> j")
    case True
    define z where "z = k * 2 ^ nat (j - e)"
    have y: "of_int k * 2 powi j = real_of_int z * 2 powi e"
      unfolding z_def by (rule scaled_int[OF True])
    from le have "real_of_int z * 2 powi e \<le> m * 2 powi e" unfolding y xm[symmetric] .
    hence "real_of_int z \<le> m" using P by (simp only: mult_le_cancel_right_pos)
    hence "z \<le> \<lfloor>m\<rfloor>" by (simp add: le_floor_iff)
    with fl have "z \<le> n" by simp
    hence "real_of_int z \<le> real_of_int n" by simp
    hence "real_of_int z * 2 powi e \<le> real_of_int n * 2 powi e"
      using P by (simp only: mult_le_cancel_right_pos)
    thus ?thesis unfolding y f .
  next
    case False
    hence je: "j < e" by simp
    hence "- 1074 < e" using j by simp
    from normal_significand[OF x this[unfolded e_def]] have "2 ^ 52 * 2 powi e \<le> x"
      unfolding e_def .
    hence "2 ^ 52 * 2 powi e \<le> m * 2 powi e" unfolding xm[symmetric] .
    hence "2 ^ 52 \<le> m" using P by (simp only: mult_le_cancel_right_pos)
    hence "real_of_int (2 ^ 52) \<le> m" by simp
    hence "2 ^ 52 \<le> \<lfloor>m\<rfloor>" by (simp only: le_floor_iff)
    with fl have "2 ^ 52 \<le> n" by linarith
    hence "real_of_int (2 ^ 52) \<le> real_of_int n" by (simp only: of_int_le_iff)
    hence "2 ^ 52 * 2 powi e \<le> real_of_int n * 2 powi e"
      using P by simp
    with small_significand[OF je k] show ?thesis unfolding f by linarith
  qed
qed

lemma fp_pos_upper:
  assumes x: "0 < x" and k: "\<bar>k\<bar> \<le> 2 ^ 53" and j: "- 1074 \<le> j"
    and le: "x \<le> of_int k * 2 powi j"
  shows "fp_pos x \<le> of_int k * 2 powi j"
proof -
  define e where "e = max (ilog2 x - 52) (- 1074)"
  define m where "m = x / 2 powi e"
  define n where "n = roundTiesToEven m"
  have P: "(0::real) < 2 powi e" by simp
  have cl: "n \<le> \<lceil>m\<rceil>" using rte_bounds[of m] by (simp add: n_def)
  have f: "fp_pos x = of_int n * 2 powi e"
    unfolding fp_pos_unfold e_def[symmetric] m_def[symmetric] n_def ..
  have xm: "x = m * 2 powi e" by (simp add: m_def)
  show ?thesis
  proof (cases "e \<le> j")
    case True
    define z where "z = k * 2 ^ nat (j - e)"
    have y: "of_int k * 2 powi j = real_of_int z * 2 powi e"
      unfolding z_def by (rule scaled_int[OF True])
    from le have "m * 2 powi e \<le> real_of_int z * 2 powi e" unfolding y xm[symmetric] .
    hence "m \<le> real_of_int z" using P by (simp only: mult_le_cancel_right_pos)
    hence "\<lceil>m\<rceil> \<le> z" by (simp add: ceiling_le_iff)
    with cl have "n \<le> z" by simp
    hence "real_of_int n \<le> real_of_int z" by simp
    hence "real_of_int n * 2 powi e \<le> real_of_int z * 2 powi e"
      using P by (simp only: mult_le_cancel_right_pos)
    thus ?thesis unfolding y f .
  next
    case False
    hence je: "j < e" by simp
    hence "- 1074 < e" using j by simp
    from normal_significand[OF x this[unfolded e_def]] have lo: "2 ^ 52 * 2 powi e \<le> x"
      unfolding e_def .
    with small_significand[OF je k] le have eq: "x = 2 ^ 52 * 2 powi e"
      and y: "real_of_int k * 2 powi j = 2 ^ 52 * 2 powi e" by linarith+
    have "m = real_of_int (2 ^ 52)" unfolding m_def using eq by simp
    hence "n = 2 ^ 52" unfolding n_def by (simp only: rte_of_int)
    thus ?thesis unfolding f y by simp
  qed
qed

lemma double_minus: "double y \<Longrightarrow> double (- y)"
  unfolding double_def
  by (metis abs_minus_cancel mult_minus_left of_int_minus)

lemma double_of_int: "\<bar>k\<bar> \<le> 2 ^ 53 \<Longrightarrow> double (of_int k)"
  unfolding double_def by (rule exI[of _ k], rule exI[of _ 0]) simp

lemma double_half: "double (1 / 2)"
  unfolding double_def by (rule exI[of _ 1], rule exI[of _ "- 1"]) simp

lemma fp_lower: "double y \<Longrightarrow> y \<le> x \<Longrightarrow> y \<le> fp x"
proof -
  assume d: "double y" and le: "y \<le> x"
  from d obtain k j where y: "y = of_int k * 2 powi j" and k: "\<bar>k\<bar> \<le> 2 ^ 53" and j: "- 1074 \<le> j"
    unfolding double_def by blast
  from double_minus[OF d] obtain k' j' where y': "- y = of_int k' * 2 powi j'"
    and k': "\<bar>k'\<bar> \<le> 2 ^ 53" and j': "- 1074 \<le> j'"
    unfolding double_def by blast
  consider "0 < x" | "x = 0" | "x < 0" by linarith
  thus ?thesis
  proof cases
    case 1
    thus ?thesis using fp_pos_lower[OF 1 k j] le y by (simp add: fp_def)
  next
    case 2
    thus ?thesis using le by (simp add: fp_def)
  next
    case 3
    hence "0 < - x" by simp
    from fp_pos_upper[OF this k' j'] le y' have "fp_pos (- x) \<le> - y" by simp
    thus ?thesis using 3 by (simp add: fp_def)
  qed
qed

lemma fp_upper: "double y \<Longrightarrow> x \<le> y \<Longrightarrow> fp x \<le> y"
proof -
  assume d: "double y" and le: "x \<le> y"
  from d obtain k j where y: "y = of_int k * 2 powi j" and k: "\<bar>k\<bar> \<le> 2 ^ 53" and j: "- 1074 \<le> j"
    unfolding double_def by blast
  from double_minus[OF d] obtain k' j' where y': "- y = of_int k' * 2 powi j'"
    and k': "\<bar>k'\<bar> \<le> 2 ^ 53" and j': "- 1074 \<le> j'"
    unfolding double_def by blast
  consider "0 < x" | "x = 0" | "x < 0" by linarith
  thus ?thesis
  proof cases
    case 1
    thus ?thesis using fp_pos_upper[OF 1 k j] le y by (simp add: fp_def)
  next
    case 2
    thus ?thesis using le by (simp add: fp_def)
  next
    case 3
    hence x: "0 < - x" by simp
    show ?thesis
    proof (cases "0 \<le> y")
      case True
      thus ?thesis using fp_pos_nonneg[OF x] 3 by (simp add: fp_def)
    next
      case False
      from fp_pos_lower[OF x k' j'] le y' have "- y \<le> fp_pos (- x)" by simp
      thus ?thesis using 3 by (simp add: fp_def)
    qed
  qed
qed

lemma fp_double: "double y \<Longrightarrow> fp y = y"
  using fp_lower[of y y] fp_upper[of y y] by simp

subsection \<open>The reconnect delay\<close>

lemma double_one: "double 1"
  using double_of_int[of 1] by simp

lemma jitter_bounds:
  fixes b r :: real
  assumes b0: "0 \<le> b"
    and db: "double (b * 0.25)" "double (b * 0.75)" "double (b * 1.25)"
    and r: "0 \<le> r" "r < 1"
  shows "b * 0.75 \<le> max 0 (fp (b + fp (fp (fp (r - 0.5) * 2) * fp (b * 0.25))))"
    and "max 0 (fp (b + fp (fp (fp (r - 0.5) * 2) * fp (b * 0.25)))) \<le> b * 1.25"
proof -
  define j where "j = b * 0.25"
  define t1 where "t1 = fp (r - 0.5)"
  define t2 where "t2 = fp (t1 * 2)"
  define rj where "rj = fp (t2 * j)"
  have j0: "0 \<le> j" using b0 by (simp add: j_def)
  have dj: "double j" "double (- j)"
    using db(1) double_minus[OF db(1)] by (simp_all add: j_def)
  have fj: "fp (b * 0.25) = j" using fp_double[OF db(1)] by (simp add: j_def)
  have "- (1 / 2) \<le> r - 0.5" "r - 0.5 \<le> 1 / 2" using r by simp_all
  hence t1: "- (1 / 2) \<le> t1" "t1 \<le> 1 / 2"
    unfolding t1_def
    using fp_lower[OF double_minus[OF double_half]] fp_upper[OF double_half] by blast+
  hence "- 1 \<le> t1 * 2" "t1 * 2 \<le> 1" by simp_all
  hence t2: "- 1 \<le> t2" "t2 \<le> 1"
    unfolding t2_def
    using fp_lower[OF double_minus[OF double_one]] fp_upper[OF double_one] by blast+
  have "- j \<le> t2 * j" "t2 * j \<le> j"
    using t2 j0 mult_right_mono[of "- 1" t2 j] mult_right_mono[of t2 1 j] by simp_all
  hence rj: "- j \<le> rj" "rj \<le> j"
    unfolding rj_def using fp_lower[OF dj(2)] fp_upper[OF dj(1)] by blast+
  hence "b * 0.75 \<le> b + rj" "b + rj \<le> b * 1.25" by (simp_all add: j_def)
  hence s: "b * 0.75 \<le> fp (b + rj)" "fp (b + rj) \<le> b * 1.25"
    using fp_lower[OF db(2)] fp_upper[OF db(3)] by blast+
  have e: "fp (b + fp (fp (fp (r - 0.5) * 2) * fp (b * 0.25))) = fp (b + rj)"
    unfolding fj rj_def t2_def t1_def by (rule refl)
  show "b * 0.75 \<le> max 0 (fp (b + fp (fp (fp (r - 0.5) * 2) * fp (b * 0.25))))"
    unfolding e using s by simp
  show "max 0 (fp (b + fp (fp (fp (r - 0.5) * 2) * fp (b * 0.25)))) \<le> b * 1.25"
    unfolding e using s b0 by simp
qed

lemma base_delay:
  assumes "n \<le> 4"
  shows "fp (1000 * fp (2 ^ n)) = 1000 * 2 ^ n"
    and "double (1000 * 2 ^ n * 0.25)" and "double (1000 * 2 ^ n * 0.75)"
    and "double (1000 * 2 ^ n * 1.25)"
proof -
  have p: "(2::int) ^ n \<le> 2 ^ 4" using assms power_increasing[of n 4 "2::int"] by simp
  have "double (real_of_int (2 ^ n))" using p by (intro double_of_int) simp
  hence 1: "fp (2 ^ n) = 2 ^ n" using fp_double by fastforce
  have "double (real_of_int (1000 * 2 ^ n))" using p by (intro double_of_int) simp
  hence "fp (1000 * 2 ^ n) = 1000 * 2 ^ n" using fp_double by fastforce
  thus "fp (1000 * fp (2 ^ n)) = 1000 * 2 ^ n" by (simp add: 1)
  have "double (real_of_int (250 * 2 ^ n))" using p by (intro double_of_int) simp
  thus "double (1000 * 2 ^ n * 0.25)" by simp
  have "double (real_of_int (750 * 2 ^ n))" using p by (intro double_of_int) simp
  thus "double (1000 * 2 ^ n * 0.75)" by simp
  have "double (real_of_int (1250 * 2 ^ n))" using p by (intro double_of_int) simp
  thus "double (1000 * 2 ^ n * 1.25)" by simp
qed

lemma scheduleReconnect_proceeds:
  assumes "netOnline s" and "reconnectAttempts s < maxReconnectAttempts s"
  shows "scheduleReconnect r s
           = (let b = fp (reconnectDelay s * fp (2 ^ reconnectAttempts s));
                  d = max 0 (fp (b + fp (fp (fp (r - 0.5) * 2) * fp (b * 0.25))))
              in s\<lparr>reconnectAttempts := reconnectAttempts s + 1,
                    calls := calls s @ [OnReconnecting (reconnectAttempts s + 1)
                                          (maxReconnectAttempts s) (round d)],
                    timeouts := timeouts s @ [(nextTimerId s, d)],
                    reconnectTimer := Some (nextTimerId s),
                    nextTimerId := nextTimerId s + 1\<rparr>)"
  using assms by (simp add: scheduleReconnect_def Let_def)

subsection \<open>The concrete inputs\<close>

lemma mixed_batches:
  "snd (batchOperations 1000 mixed_queue)
     = [([76], [example_op (Some [76]) 0 0, example_op (Some [76]) 0 1]),
        ([77], [example_op (Some [77]) 0 2])]"
  by (simp add: batchOperations_snd queue_cleanExpiredItems mixed_queue_def example_op_def
      example_params_def QUEUE_TTL_MS_def group_step_def map_has_def map_push_def
      limit_step_def MAX_BATCH_SIZE_def Let_def)

lemma mixed_ids: "distinct (map queueId (queue mixed_queue))"
  by (simp add: mixed_queue_def example_op_def toString.simps)

lemma collision_batches:
  "snd (batchOperations 1000 collision_queue)
     = [([76, 95, 48], [example_op (Some [76, 95, 48]) 0 101]),
        ([76, 95, 49, 48, 48], [example_op (Some [76]) 0 100])]"
  by code_simp

lemma mixed_large_ops:
  "queue (cleanExpiredItems 1000 mixed_large_queue) = queue mixed_large_queue"
  "ops_for [76] 1000 mixed_large_queue
     = map (example_op (Some [76]) 0) [0..<101] @ map (example_op (Some [76]) 0) [102..<151]"
  by (simp_all add: ops_for_def queue_cleanExpiredItems mixed_large_queue_def example_op_def
      example_params_def for_leaderboard_def QUEUE_TTL_MS_def)

lemma split_keys_150: "split_keys [76] 150 = [[76, 95, 48], [76, 95, 49, 48, 48]]"
  by code_simp

section \<open>Properties\<close>




text \<open>
  C2 (as amended). Let \<open>L\<close> be a non-empty leaderboard id, and take the N submit
  operations for \<open>L\<close> that remain in the queue once \<open>batchOperations\<close> has purged the
  expired ones, with N > 100. If none of the other remaining operations is filed under
  the key \<open>L\<close> or under one of the keys \<open>L_0\<close>, \<open>L_100\<close>, ... of the sub-batches of
  \<open>L\<close>, then the map returned holds under these keys, in this order, ceil(N/100) groups,
  each of at most 100 operations, whose concatenation is exactly those N operations in
  queue order; no other group of the map holds any of them, and the queue keeps them.
  The other operations of the queue may be any: submits for other leaderboards, bulk
  operations, operations that are not grouped.
\<close>

theorem batchOperations_large_group:
  assumes nonempty: "L \<noteq> []"
    and large: "length (ops_for L now q) > 100"
    and apart: "\<forall>op \<in> set (queue (cleanExpiredItems now q)). \<not> for_leaderboard L op
        \<longrightarrow> (\<forall>k \<in> set (L # split_keys L (length (ops_for L now q))). group_key op \<noteq> Some k)"
  shows "map fst (groups_for L now q) = split_keys L (length (ops_for L now q))
       \<and> int (length (groups_for L now q)) = \<lceil>real (length (ops_for L now q)) / 100\<rceil>
       \<and> list_all (\<lambda>g. length g \<le> 100) (map snd (groups_for L now q))
       \<and> concat (map snd (groups_for L now q)) = ops_for L now q
       \<and> (\<forall>e \<in> set (snd (batchOperations now q)). e \<notin> set (groups_for L now q)
            \<longrightarrow> (\<forall>op \<in> set (snd e). \<not> for_leaderboard L op))
       \<and> filter (for_leaderboard L) (queue (fst (batchOperations now q))) = ops_for L now q"
proof -
  let ?ops = "ops_for L now q"
  let ?m = "(length ?ops + 99) div 100"
  let ?chunks = "map (\<lambda>k. (L @ underscore @ toString (100 * k),
                           take 100 (drop (100 * k) ?ops))) [0..<?m]"
  have res: "groups_for L now q = ?chunks"
    unfolding groups_for_def batchOperations_snd
    using large_group_batches[OF nonempty large[unfolded ops_for_def] apart[unfolded ops_for_def]]
    unfolding ops_for_def .
  have keys: "map fst ?chunks = split_keys L (length ?ops)"
    by (simp add: split_keys_def comp_def)
  have len: "int (length ?chunks) = \<lceil>real (length ?ops) / 100\<rceil>"
    by simp linarith
  have small: "list_all (\<lambda>g. length g \<le> 100) (map snd ?chunks)"
    by (simp add: list_all_iff)
  have "map snd ?chunks = map (\<lambda>k. take 100 (drop (100 * k) ?ops)) [0..<?m]"
    by (simp add: comp_def)
  then have "concat (map snd ?chunks) = take (100 * ?m) ?ops"
    by (simp only: concat_chunks)
  moreover have "length ?ops \<le> 100 * ?m" by linarith
  ultimately have cat: "concat (map snd ?chunks) = ?ops" by simp
  have own: "vals (filter (\<lambda>e. fst e \<in> set (split_keys L (length ?ops)))
                     (snd (batchOperations now q)))
               = mset (filter (for_leaderboard L) (queue (cleanExpiredItems now q)))"
    using cat res by (simp add: vals_def groups_for_def ops_for_def)
  have sub: "vals (snd (batchOperations now q)) \<subseteq># mset (queue (cleanExpiredItems now q))"
    using vals_batchOperations[of now q]
    by (rule subset_mset.order_trans) simp
  have stray: "\<forall>e \<in> set (snd (batchOperations now q)). e \<notin> set (groups_for L now q)
            \<longrightarrow> (\<forall>op \<in> set (snd e). \<not> for_leaderboard L op)"
  proof (intro ballI impI)
    fix e op
    assume e: "e \<in> set (snd (batchOperations now q))" "e \<notin> set (groups_for L now q)"
      and op: "op \<in> set (snd e)"
    from e have "\<not> fst e \<in> set (split_keys L (length ?ops))"
      by (simp add: groups_for_def)
    from no_stray_operations[OF own sub e(1) this op] show "\<not> for_leaderboard L op" .
  qed
  have kept: "filter (for_leaderboard L) (queue (fst (batchOperations now q))) = ?ops"
    by (simp add: batchOperations_fst ops_for_def)
  show ?thesis
    unfolding res using keys len small cat stray[unfolded res] kept
    by (intro conjI)
qed

theorem batchOperations_large_group_witness:
  "[76] \<noteq> ([] :: jsstring)
   \<and> length (ops_for [76] 1000 mixed_large_queue) = 150
   \<and> list_all (\<lambda>op. for_leaderboard [76] op
          \<or> list_all (\<lambda>k. group_key op \<noteq> Some k) ([76] # split_keys [76] 150))
        (queue (cleanExpiredItems 1000 mixed_large_queue))
   \<and> ops_for [76] 1000 mixed_large_queue
       = map (example_op (Some [76]) 0) [0..<101] @ map (example_op (Some [76]) 0) [102..<151]
   \<and> map fst (groups_for [76] 1000 mixed_large_queue) = [[76, 95, 48], [76, 95, 49, 48, 48]]
   \<and> length (groups_for [76] 1000 mixed_large_queue) = 2
   \<and> list_all (\<lambda>g. length g \<le> 100) (map snd (groups_for [76] 1000 mixed_large_queue))
   \<and> concat (map snd (groups_for [76] 1000 mixed_large_queue))
       = ops_for [76] 1000 mixed_large_queue"
proof -
  have n: "length (ops_for [76] 1000 mixed_large_queue) = 150"
    by (simp add: mixed_large_ops)
  have ap: "list_all (\<lambda>op. for_leaderboard [76] op
          \<or> list_all (\<lambda>k. group_key op \<noteq> Some k) ([76] # split_keys [76] 150))
        (queue (cleanExpiredItems 1000 mixed_large_queue))"
    unfolding mixed_large_ops split_keys_150
    by (simp add: mixed_large_queue_def list_all_iff for_leaderboard_def group_key_def
        example_op_def example_params_def)
  have large: "length (ops_for [76] 1000 mixed_large_queue) > 100"
    by (simp add: n)
  have apart: "\<forall>op \<in> set (queue (cleanExpiredItems 1000 mixed_large_queue)).
      \<not> for_leaderboard [76] op
        \<longrightarrow> (\<forall>k \<in> set ([76] # split_keys [76] (length (ops_for [76] 1000 mixed_large_queue))).
               group_key op \<noteq> Some k)"
    using ap unfolding n by (auto simp add: list_all_iff)
  have two: "\<lceil>real 150 / 100\<rceil> = (2::int)"
    by linarith
  from batchOperations_large_group[OF _ large apart]
  have k: "map fst (groups_for [76] 1000 mixed_large_queue)
             = split_keys [76] (length (ops_for [76] 1000 mixed_large_queue))"
    and l: "int (length (groups_for [76] 1000 mixed_large_queue))
             = \<lceil>real (length (ops_for [76] 1000 mixed_large_queue)) / 100\<rceil>"
    and s: "list_all (\<lambda>g. length g \<le> 100) (map snd (groups_for [76] 1000 mixed_large_queue))"
    and c: "concat (map snd (groups_for [76] 1000 mixed_large_queue))
             = ops_for [76] 1000 mixed_large_queue"
    by simp_all
  have k': "map fst (groups_for [76] 1000 mixed_large_queue)
              = [[76, 95, 48], [76, 95, 49, 48, 48]]"
    using k unfolding n split_keys_150 .
  have l': "length (groups_for [76] 1000 mixed_large_queue) = 2"
    using l unfolding n two by simp
  from n ap mixed_large_ops(2) k' l' s c show ?thesis by simp
qed

text \<open>
  The claim as first stated (every queue holding N > 100 submit operations with the same
  leaderboard id) fails in three cases. 101 operations for leaderboard \<open>L\<close> that are 24
  hours old are purged before grouping, and 101 fresh operations whose leaderboard id is
  the empty string are passed over: no group is returned in either case. And when 101
  operations for \<open>L\<close> are followed by one operation for the leaderboard named \<open>L_0\<close>,
  the second group overwrites the first sub-batch of \<open>L\<close>: the map returned holds two
  operations in all.
\<close>

theorem batchOperations_large_group_counterexample:
  "length (queue (example_queue 101 (Some [76]) 0)) = 101
   \<and> snd (batchOperations 86400000 (example_queue 101 (Some [76]) 0)) = []
   \<and> length (queue (example_queue 101 (Some []) 0)) = 101
   \<and> snd (batchOperations 1000 (example_queue 101 (Some []) 0)) = []
   \<and> length (filter (for_leaderboard [76]) (queue collision_queue)) = 101
   \<and> length (concat (map snd (snd (batchOperations 1000 collision_queue)))) = 2"
proof -
  have "queue (cleanExpiredItems 86400000 (example_queue 101 (Some [76]) 0)) = []"
    by (rule example_queue_expired) (simp add: QUEUE_TTL_MS_def)
  then have expired: "snd (batchOperations 86400000 (example_queue 101 (Some [76]) 0)) = []"
    by (simp add: batchOperations_snd)
  have "queue (cleanExpiredItems 1000 (example_queue 101 (Some []) 0))
          = queue (example_queue 101 (Some []) 0)"
    by (rule example_queue_fresh) (simp add: QUEUE_TTL_MS_def)
  moreover have "foldl group_step [] (queue (example_queue 101 (Some []) 0)) = []"
    by (rule group_fold_skipped)
       (simp add: example_queue_def example_op_def example_params_def)
  ultimately have skipped: "snd (batchOperations 1000 (example_queue 101 (Some []) 0)) = []"
    by (simp add: batchOperations_snd)
  have count: "length (filter (for_leaderboard [76]) (queue collision_queue)) = 101"
    by (simp add: collision_queue_def for_leaderboard_def example_op_def example_params_def)
  have collide: "length (concat (map snd (snd (batchOperations 1000 collision_queue)))) = 2"
    by (simp add: collision_batches)
  show ?thesis
    using expired skipped count collide by (simp add: example_queue_def)
qed

text \<open>
  C1. In a drain pass over a queue whose queue ids are pairwise different (the ids are
  ULIDs), take a batch the loop reaches and for which the bulk-submit call is made and
  fails. If the status is 401, 403 or 404, the handling of that batch removes every
  operation of the batch from the queue and emits exactly the events
  \<open>queue:failed {operation, permanent: true}\<close>, one per operation of the batch, the
  loop goes on, and none of these operations is in the queue when the pass ends. On any
  other error every operation of the batch is still in the queue when the pass ends,
  unchanged; the pass ends with the queue and the events as they were when the batch was
  reached, and the failed call is the last call of the pass: no later batch is processed.
\<close>

theorem drain_failed_batch:
  assumes ids: "distinct (map queueId (queue (offlineQueue s)))"
    and online: "isOnline s" and idle: "\<not> processing (offlineQueue s)"
    and batches: "snd (batchOperations now (offlineQueue s)) = pre @ (key, ops) # post"
    and reach: "processBatches net pre (drain_start now s) = (d, Continue)"
    and call: "batch_call key ops = Some body"
    and fail: "net (length (requests (client d))) = HttpFailed st"
  shows "(is_permanent st \<longrightarrow>
            (\<exists>d'. processBatch net (key, ops) d = (d', Continue)
               \<and> (\<forall>op \<in> set ops. op \<in> set (queue (offlineQueue (client d)))
                                 \<and> op \<notin> set (queue (offlineQueue (client d'))))
               \<and> emitted (offlineQueue (client d'))
                   = emitted (offlineQueue (client d)) @ map (\<lambda>op. QueueFailed op True) ops)
            \<and> (\<forall>op \<in> set ops. op \<notin> set (queue (offlineQueue (processOfflineQueue now net s)))))
       \<and> (\<not> is_permanent st \<longrightarrow>
            (\<forall>op \<in> set ops. op \<in> set (queue (offlineQueue (processOfflineQueue now net s))))
            \<and> queue (offlineQueue (processOfflineQueue now net s))
                = queue (offlineQueue (client d))
            \<and> emitted (offlineQueue (processOfflineQueue now net s))
                = emitted (offlineQueue (client d))
            \<and> requests (processOfflineQueue now net s)
                = requests (client d) @ [(''/v1/scores/bulk'', body)])"
proof -
  let ?cleaned = "queue (cleanExpiredItems now (offlineQueue s))"
  let ?bs = "snd (batchOperations now (offlineQueue s))"
  let ?dreq = "d\<lparr>client := (client d)\<lparr>requests := requests (client d)
                                             @ [(''/v1/scores/bulk'', body)]\<rparr>\<rparr>"
  have dc: "distinct (map queueId ?cleaned)"
    using ids by (simp add: queue_cleanExpiredItems distinct_map_filter)
  have sub: "mset (concat (map snd ?bs)) \<subseteq># mset ?cleaned"
    by (rule batches_in_queue)
  have dall: "distinct (map queueId (concat (map snd ?bs)))"
    using sub dc by (rule distinct_map_mset_subseteq)
  have in_cleaned: "set ops \<subseteq> set ?cleaned"
    using set_mset_mono[OF sub] by (auto simp add: batches)
  have dops: "distinct (map queueId ops)"
    using dall by (simp add: batches)
  have "distinct (map queueId (concat (map snd pre))
                    @ (map queueId ops @ map queueId (concat (map snd post))))"
    using dall by (simp add: batches)
  then have "set (map queueId (concat (map snd pre)))
               \<inter> set (map queueId ops @ map queueId (concat (map snd post))) = {}"
    by (simp only: distinct_append)
  then have disj: "queueId ` set ops \<inter> queueId ` set (concat (map snd pre)) = {}"
    by (simp only: set_map set_append) blast
  from processBatches_queue[OF reach] obtain R
    where R: "R \<subseteq> queueId ` set (concat (map snd pre))"
      "dq d = filter (\<lambda>x. queueId x \<notin> R) (dq (drain_start now s))"
    by blast
  have dqd: "dq d = filter (\<lambda>x. queueId x \<notin> R) ?cleaned"
    using R(2) by (simp add: dq_drain_start)
  have here: "set ops \<subseteq> set (dq d)"
    using in_cleaned R(1) disj by (auto simp add: dqd)
  have dd: "distinct (map queueId (dq d))"
    using dc by (simp add: dqd distinct_map_filter)
  have step: "processBatch net (key, ops) d = catch_block st ops ?dreq"
    using processBatch_failed[of key ops body net d st] call fail by simp
  have whole: "processBatches net ?bs (drain_start now s)
                 = (case processBatch net (key, ops) d of
                      (d', Continue) \<Rightarrow> processBatches net post d'
                    | (d', Break) \<Rightarrow> (d', Break))"
    by (simp add: batches processBatches_append reach)
  have pass: "processOfflineQueue now net s
                = (client (fst (processBatches net ?bs (drain_start now s))))
                    \<lparr>offlineQueue := setProcessing False
                       (offlineQueue (client (fst (processBatches net ?bs (drain_start now s)))))\<rparr>"
    using online idle
    by (simp add: processOfflineQueue_def Let_def batchOperations_setProcessing)
  have perm: ?thesis if p: "is_permanent st"
  proof -
    let ?d' = "foldl mark_one ?dreq ops"
    have s1: "processBatch net (key, ops) d = (?d', Continue)"
      using p by (simp add: step catch_block_def)
    have q': "dq ?d' = filter (\<lambda>x. queueId x \<notin> set (map queueId ops)) (dq d)"
      by (simp add: fold_mark_queue)
    have gone: "\<forall>op \<in> set ops. op \<notin> set (dq ?d')"
      by (simp add: q')
    have ev: "emitted (offlineQueue (client ?d'))
                = emitted (offlineQueue (client d)) @ map (\<lambda>op. QueueFailed op True) ops"
      using fold_mark_emitted[of ?dreq ops] dd here dops by (simp add: dq_def)
    obtain df c where rest: "processBatches net post ?d' = (df, c)"
      by (cases "processBatches net post ?d'")
    from processBatches_queue[OF rest] obtain R2
      where "dq df = filter (\<lambda>x. queueId x \<notin> R2) (dq ?d')" by blast
    with gone have "\<forall>op \<in> set ops. op \<notin> set (dq df)" by simp
    moreover have "queue (offlineQueue (processOfflineQueue now net s)) = dq df"
      by (simp add: pass whole s1 rest dq_def setProcessing_def)
    ultimately have final: "\<forall>op \<in> set ops.
        op \<notin> set (queue (offlineQueue (processOfflineQueue now net s)))"
      by simp
    show ?thesis
      using p s1 here gone ev final unfolding dq_def by blast
  qed
  have trans: ?thesis if np: "\<not> is_permanent st"
  proof -
    have s1: "processBatch net (key, ops) d = (?dreq, Break)"
      using np by (simp add: step catch_block_def)
    have fin: "processOfflineQueue now net s
                 = (client ?dreq)\<lparr>offlineQueue := setProcessing False (offlineQueue (client ?dreq))\<rparr>"
      by (simp add: pass whole s1)
    show ?thesis
      using np here unfolding fin dq_def by (auto simp add: setProcessing_def)
  qed
  show ?thesis using perm trans by blast
qed

theorem drain_failed_batch_witness:
  "distinct (map queueId (queue (offlineQueue (example_client mixed_queue))))
   \<and> isOnline (example_client mixed_queue)
   \<and> \<not> processing (offlineQueue (example_client mixed_queue))
   \<and> snd (batchOperations 1000 (offlineQueue (example_client mixed_queue)))
       = [] @ ([76], [example_op (Some [76]) 0 0, example_op (Some [76]) 0 1])
              # [([77], [example_op (Some [77]) 0 2])]
   \<and> is_permanent (Some 404)
   \<and> list_all (\<lambda>op. op \<notin> set (queue (offlineQueue
          (processOfflineQueue 1000 (first_fails (Some 404)) (example_client mixed_queue)))))
        [example_op (Some [76]) 0 0, example_op (Some [76]) 0 1]
   \<and> \<not> is_permanent (Some 500)
   \<and> queue (offlineQueue
          (processOfflineQueue 1000 (first_fails (Some 500)) (example_client mixed_queue)))
       = queue mixed_queue
   \<and> requests (processOfflineQueue 1000 (first_fails (Some 500)) (example_client mixed_queue))
       = [(''/v1/scores/bulk'',
           map to_request [example_op (Some [76]) 0 0, example_op (Some [76]) 0 1])]"
proof -
  let ?s = "example_client mixed_queue"
  let ?ops = "[example_op (Some [76]) 0 0, example_op (Some [76]) 0 1]"
  have ids: "distinct (map queueId (queue (offlineQueue ?s)))"
    using mixed_ids by (simp add: example_client_def)
  have online: "isOnline ?s" and idle: "\<not> processing (offlineQueue ?s)"
    by (simp_all add: example_client_def mixed_queue_def)
  have batches: "snd (batchOperations 1000 (offlineQueue ?s))
                   = [] @ ([76], ?ops) # [([77], [example_op (Some [77]) 0 2])]"
    using mixed_batches by (simp add: example_client_def)
  have reach: "processBatches net [] (drain_start 1000 ?s) = (drain_start 1000 ?s, Continue)"
    for net by simp
  have call: "batch_call [76] ?ops = Some (map to_request ?ops)"
    by (simp add: batch_call_def startsWith_def bulk_prefix_def)
  have fail: "first_fails st (length (requests (client (drain_start 1000 ?s)))) = HttpFailed st"
    for st by (simp add: first_fails_def drain_start_def example_client_def)
  have start: "queue (offlineQueue (client (drain_start 1000 ?s))) = queue mixed_queue"
    by (simp add: drain_start_def batchOperations_setProcessing queue_cleanExpiredItems
        example_client_def mixed_queue_def example_op_def QUEUE_TTL_MS_def)
  have reqs: "requests (client (drain_start 1000 ?s)) = []"
    by (simp add: drain_start_def example_client_def)
  have p: "is_permanent (Some 404)" and np: "\<not> is_permanent (Some 500)"
    by (simp_all add: is_permanent_def)
  note perm = drain_failed_batch[where net = "first_fails (Some 404)" and st = "Some 404",
      OF ids online idle batches reach call fail]
  note trans = drain_failed_batch[where net = "first_fails (Some 500)" and st = "Some 500",
      OF ids online idle batches reach call fail]
  show ?thesis
    using perm trans p np ids online idle batches
    by (simp add: list_all_iff start reqs)
qed

text \<open>
  C10. A submit operation whose \<open>params.leaderboardId\<close> is absent or empty is in no
  batch that \<open>batchOperations\<close> returns. While it is younger than the TTL it stays in the
  queue: \<open>batchOperations\<close> keeps it, and so does a whole drain pass, whatever the network
  answers (queue ids pairwise different, as ULIDs are). Once it is as old as the TTL, the
  purge at the start of \<open>batchOperations\<close> removes it.
\<close>

theorem unroutable_submit_stays:
  assumes sub: "opMethod op = Submit" and nolb: "\<not> truthy (leaderboardId (params op))"
  shows "(\<forall>g \<in> set (map snd (snd (batchOperations now q))). op \<notin> set g)
       \<and> (op \<in> set (queue q) \<and> now - timestamp op < QUEUE_TTL_MS
            \<longrightarrow> op \<in> set (queue (fst (batchOperations now q))))
       \<and> (distinct (map queueId (queue (offlineQueue s))) \<and> op \<in> set (queue (offlineQueue s))
            \<and> now - timestamp op < QUEUE_TTL_MS
            \<longrightarrow> op \<in> set (queue (offlineQueue (processOfflineQueue now net s))))
       \<and> (\<not> now - timestamp op < QUEUE_TTL_MS
            \<longrightarrow> op \<notin> set (queue (fst (batchOperations now q))))"
proof -
  have ng: "\<not> grouped op" using sub nolb by (simp add: grouped_def)
  have no_batch: "\<forall>g \<in> set (map snd (snd (batchOperations now q))). op \<notin> set g"
  proof
    fix g assume "g \<in> set (map snd (snd (batchOperations now q)))"
    then have "op \<in> set g \<Longrightarrow> op \<in> set (concat (map snd (snd (batchOperations now q))))"
      by auto
    with batches_grouped[of op now q] ng show "op \<notin> set g" by blast
  qed
  have stays: "op \<in> set (queue q) \<and> now - timestamp op < QUEUE_TTL_MS
                 \<longrightarrow> op \<in> set (queue (fst (batchOperations now q)))"
    by (simp add: batchOperations_fst queue_cleanExpiredItems)
  have purged: "\<not> now - timestamp op < QUEUE_TTL_MS
                  \<longrightarrow> op \<notin> set (queue (fst (batchOperations now q)))"
    by (simp add: batchOperations_fst queue_cleanExpiredItems)
  have drained: "op \<in> set (queue (offlineQueue (processOfflineQueue now net s)))"
    if ids: "distinct (map queueId (queue (offlineQueue s)))"
      and mem: "op \<in> set (queue (offlineQueue s))"
      and fresh: "now - timestamp op < QUEUE_TTL_MS"
  proof (cases "\<not> isOnline s \<or> processing (offlineQueue s)")
    case True
    then show ?thesis using mem by (simp add: processOfflineQueue_def)
  next
    case False
    let ?cleaned = "queue (cleanExpiredItems now (offlineQueue s))"
    let ?bs = "snd (batchOperations now (offlineQueue s))"
    obtain df c where run: "processBatches net ?bs (drain_start now s) = (df, c)"
      by (cases "processBatches net ?bs (drain_start now s)")
    from processBatches_queue[OF run] obtain R
      where R: "R \<subseteq> queueId ` set (concat (map snd ?bs))"
        "dq df = filter (\<lambda>x. queueId x \<notin> R) ?cleaned"
      by (auto simp add: dq_drain_start)
    have dc: "distinct (map queueId ?cleaned)"
      using ids by (simp add: queue_cleanExpiredItems distinct_map_filter)
    have oc: "op \<in> set ?cleaned"
      using mem fresh by (simp add: queue_cleanExpiredItems)
    have "queueId op \<notin> R"
    proof
      assume "queueId op \<in> R"
      with R(1) have "queueId op \<in> queueId ` set (concat (map snd ?bs))" by blast
      then obtain x where x: "x \<in> set (concat (map snd ?bs))" "queueId x = queueId op"
        by (metis imageE)
      from batches_grouped[OF x(1)] have gx: "grouped x" "x \<in> set ?cleaned" by simp_all
      from dc gx(2) oc x(2) have "x = op"
        by (meson distinct_map inj_on_def)
      with gx(1) ng show False by simp
    qed
    with oc have "op \<in> set (dq df)" by (simp add: R(2))
    moreover have "processOfflineQueue now net s
                = (client (fst (processBatches net ?bs (drain_start now s))))
                    \<lparr>offlineQueue := setProcessing False
                       (offlineQueue (client (fst (processBatches net ?bs (drain_start now s)))))\<rparr>"
      using False
      by (simp add: processOfflineQueue_def Let_def batchOperations_setProcessing)
    then have "queue (offlineQueue (processOfflineQueue now net s)) = dq df"
      by (simp add: run dq_def setProcessing_def)
    ultimately show ?thesis by simp
  qed
  show ?thesis using no_batch stays purged drained by blast
qed

theorem unroutable_submit_stays_witness:
  "opMethod (example_op None 0 7) = Submit
   \<and> \<not> truthy (leaderboardId (params (example_op None 0 7)))
   \<and> list_all (\<lambda>g. example_op None 0 7 \<notin> set g)
        (map snd (snd (batchOperations 1000 (unroutable_queue))))
   \<and> example_op None 0 7 \<in> set (queue unroutable_queue)
   \<and> 1000 - timestamp (example_op None 0 7) < QUEUE_TTL_MS
   \<and> example_op None 0 7 \<in> set (queue (fst (batchOperations 1000 unroutable_queue)))
   \<and> distinct (map queueId (queue (offlineQueue (example_client unroutable_queue))))
   \<and> example_op None 0 7 \<in> set (queue (offlineQueue
         (processOfflineQueue 1000 (\<lambda>n. HttpOk) (example_client unroutable_queue))))
   \<and> \<not> 86400000 - timestamp (example_op None 0 7) < QUEUE_TTL_MS
   \<and> example_op None 0 7 \<notin> set (queue (fst (batchOperations 86400000 unroutable_queue)))"
proof -
  have sub: "opMethod (example_op None 0 7) = Submit"
    and nolb: "\<not> truthy (leaderboardId (params (example_op None 0 7)))"
    by (simp_all add: example_op_def example_params_def)
  have mem: "example_op None 0 7 \<in> set (queue unroutable_queue)"
    by (simp add: unroutable_queue_def)
  have fresh: "1000 - timestamp (example_op None 0 7) < QUEUE_TTL_MS"
    and old: "\<not> 86400000 - timestamp (example_op None 0 7) < QUEUE_TTL_MS"
    by (simp_all add: example_op_def QUEUE_TTL_MS_def)
  have ids: "distinct (map queueId (queue (offlineQueue (example_client unroutable_queue))))"
    by (simp add: example_client_def unroutable_queue_def example_op_def toString.simps)
  have mem': "example_op None 0 7 \<in> set (queue (offlineQueue (example_client unroutable_queue)))"
    using mem by (simp add: example_client_def)
  note a = unroutable_submit_stays[OF sub nolb, of 1000 unroutable_queue
      "example_client unroutable_queue" "\<lambda>n. HttpOk"]
  note b = unroutable_submit_stays[OF sub nolb, of 86400000 unroutable_queue
      "example_client unroutable_queue" "\<lambda>n. HttpOk"]
  show ?thesis
    using a b sub nolb mem fresh old ids mem' by (simp add: list_all_iff)
qed

text \<open>
  C9 (as amended). \<open>submit\<close> throws the invalid-score error when the score is negative.
  Otherwise it throws the missing-leaderboard-id error when neither the argument nor the
  configuration gives a leaderboard id. Otherwise, with the effective user name
  (\<open>options.userName\<close>, or the user id when that is absent or empty): a non-empty name
  with a character outside the allowed set gives the invalid-username error, and a name of
  allowed characters longer than 50 gives the invalid-username-length error. Whenever one
  of these four errors is thrown, the client is left as it was: nothing is enqueued and
  nothing is sent.
\<close>

theorem submit_validation:
  "(sc < 0 \<longrightarrow> submit qid now others net uid sc arg s = (s, Inl InvalidScore))
   \<and> (\<not> sc < 0 \<and> \<not> truthy (resolved_leaderboardId arg s)
        \<longrightarrow> submit qid now others net uid sc arg s = (s, Inl MissingLeaderboardId))
   \<and> (\<not> sc < 0 \<and> truthy (resolved_leaderboardId arg s)
        \<and> effective_name arg uid \<noteq> [] \<and> \<not> list_all name_char (effective_name arg uid)
        \<longrightarrow> submit qid now others net uid sc arg s = (s, Inl InvalidUsername))
   \<and> (\<not> sc < 0 \<and> truthy (resolved_leaderboardId arg s)
        \<and> list_all name_char (effective_name arg uid) \<and> length (effective_name arg uid) > 50
        \<longrightarrow> submit qid now others net uid sc arg s = (s, Inl InvalidUsernameLength))
   \<and> (\<forall>e. validation_error e \<and> snd (submit qid now others net uid sc arg s) = Inl e
        \<longrightarrow> fst (submit qid now others net uid sc arg s) = s)"
proof -
  have frame: "fst (submit qid now others net uid sc arg s) = s"
    if "validation_error e" and "snd (submit qid now others net uid sc arg s) = Inl e" for e
    using that
    by (auto simp add: submit_def Let_def validation_error_def enqueue_def enqueue_start_def enqueue_resume_def request_def
        split: if_splits prod.splits sum.splits http_result.splits)
  show ?thesis
    using frame by (auto simp add: submit_def Let_def userNamePattern_test_def)
qed

theorem submit_validation_witness:
  "submit [49] 7 id (\<lambda>n. HttpOk) [117] (-1) (LeaderboardIdArg [76]) (example_client mixed_queue)
     = (example_client mixed_queue, Inl InvalidScore)
   \<and> submit [49] 7 id (\<lambda>n. HttpOk) [117] 5 NoArg (example_client mixed_queue)
     = (example_client mixed_queue, Inl MissingLeaderboardId)
   \<and> submit [49] 7 id (\<lambda>n. HttpOk) [117, 33] 5 (LeaderboardIdArg [76]) (example_client mixed_queue)
     = (example_client mixed_queue, Inl InvalidUsername)
   \<and> length long_name = 51 \<and> list_all name_char long_name
   \<and> submit [49] 7 id (\<lambda>n. HttpOk) long_name 5 (LeaderboardIdArg [76]) (example_client mixed_queue)
     = (example_client mixed_queue, Inl InvalidUsernameLength)"
proof -
  let ?s = "example_client mixed_queue"
  have lb: "truthy (resolved_leaderboardId (LeaderboardIdArg [76]) ?s)"
    and nolb: "\<not> truthy (resolved_leaderboardId NoArg ?s)"
    by (simp_all add: resolved_leaderboardId_def normalize_options_def or_else_def
        example_client_def)
  have names: "effective_name (LeaderboardIdArg [76]) uid = uid" for uid
    by (simp add: effective_name_def normalize_options_def)
  have bad: "\<not> list_all name_char [117, 33]"
    by (simp add: name_char_def)
  have long: "length long_name = 51" "list_all name_char long_name"
    by (simp_all add: long_name_def name_char_def list_all_iff)
  note a = submit_validation[of "-1" "[49]" 7 id "\<lambda>n. HttpOk" "[117]" "LeaderboardIdArg [76]" ?s]
  note b = submit_validation[of 5 "[49]" 7 id "\<lambda>n. HttpOk" "[117]" NoArg ?s]
  note c = submit_validation[of 5 "[49]" 7 id "\<lambda>n. HttpOk" "[117, 33]" "LeaderboardIdArg [76]" ?s]
  note d = submit_validation[of 5 "[49]" 7 id "\<lambda>n. HttpOk" long_name "LeaderboardIdArg [76]" ?s]
  show ?thesis
    using a b c d lb nolb bad long by (simp add: names)
qed

text \<open>
  The claim as first stated fails in two places. A call with a bad user name and no
  leaderboard id throws the missing-leaderboard-id error, not the invalid-username error:
  the leaderboard id is checked before the name. And the empty user name is rejected by
  the pattern test (the pattern asks for at least one character) with the
  invalid-username error, so it never reaches the length check.
\<close>

theorem submit_validation_counterexample:
  "snd (submit [49] 7 id (\<lambda>n. HttpOk) [117, 33] 5 NoArg (example_client mixed_queue))
     = Inl MissingLeaderboardId
   \<and> snd (submit [49] 7 id (\<lambda>n. HttpOk) [] 5 (LeaderboardIdArg [76]) (example_client mixed_queue))
     = Inl InvalidUsername"
  by (simp add: submit_def Let_def resolved_leaderboardId_def normalize_options_def or_else_def
      example_client_def effective_name_def userNamePattern_test_def)

text \<open>
  C5. In every state the WebSocket client reaches from its constructor, by any sequence of
  method calls (connect, disconnect, subscribe, unsubscribe, reconnect), socket events
  (open, message, error, close), timer firings and network changes: if \<open>permanentError\<close>
  is set, \<open>shouldReconnect\<close> is false.
\<close>

theorem permanent_error_stops_reconnect:
  "permanentError (run evs (new_client maxAttempts delay online)) \<noteq> None
     \<longrightarrow> \<not> shouldReconnect (run evs (new_client maxAttempts delay online))"
proof -
  have "perm_inv (new_client maxAttempts delay online)"
    by (simp add: perm_inv_def new_client_def)
  then have "perm_inv (run evs (new_client maxAttempts delay online))"
    by (rule inv_run)
  then show ?thesis by (auto simp add: perm_inv_def)
qed

theorem permanent_error_stops_reconnect_witness:
  "permanentError (run permanent_trace (new_client 5 1000 True))
     = Some (GLError ''bad key'' ''INVALID_API_KEY'')
   \<and> \<not> shouldReconnect (run permanent_trace (new_client 5 1000 True))"
proof -
  have pe: "permanentError (run permanent_trace (new_client 5 1000 True))
              = Some (GLError ''bad key'' ''INVALID_API_KEY'')"
    by code_simp
  from permanent_error_stops_reconnect[of permanent_trace 5 1000 True] pe
  have "\<not> shouldReconnect (run permanent_trace (new_client 5 1000 True))"
    by simp
  with pe show ?thesis by (rule conjI)
qed

text \<open>
  C4 (as amended). While the connection is not open (or there is no socket),
  \<open>unsubscribe\<close> does nothing at all: it sends nothing and the subscription set stays as
  it is. When the connection is open it sends the unsubscribe message on the current socket
  and removes the topic from the subscription set.
\<close>

theorem unsubscribe_contract:
  "(wsReadyState s \<noteq> Some OPEN \<longrightarrow> unsubscribe lb s = (s, None))
   \<and> (wsReadyState s = Some OPEN \<longrightarrow>
        (\<exists>w. ws s = Some w
           \<and> unsubscribe lb s
               = (s\<lparr>sent := sent s @ [(w, UnsubscribeOut lb)],
                     subscribedLeaderboards := removeAll lb (subscribedLeaderboards s)\<rparr>, None))
        \<and> lb \<notin> set (subscribedLeaderboards (fst (unsubscribe lb s))))"
proof (intro conjI impI)
  assume "wsReadyState s \<noteq> Some OPEN"
  then show "unsubscribe lb s = (s, None)" by (simp add: unsubscribe_def)
next
  assume op: "wsReadyState s = Some OPEN"
  then obtain w where w: "ws s = Some w" using open_has_socket by blast
  have u: "unsubscribe lb s
          = (s\<lparr>sent := sent s @ [(w, UnsubscribeOut lb)],
                subscribedLeaderboards := removeAll lb (subscribedLeaderboards s)\<rparr>, None)"
    using op w by (simp add: unsubscribe_def send_def set_delete_def)
  from w u show "\<exists>w. ws s = Some w
           \<and> unsubscribe lb s
               = (s\<lparr>sent := sent s @ [(w, UnsubscribeOut lb)],
                     subscribedLeaderboards := removeAll lb (subscribedLeaderboards s)\<rparr>, None)"
    by blast
  show "lb \<notin> set (subscribedLeaderboards (fst (unsubscribe lb s)))"
    by (simp add: u)
qed


theorem unsubscribe_contract_witness:
  "wsReadyState (run [Connect True (Some ''L'') None] (new_client 5 1000 True)) \<noteq> Some OPEN
   \<and> unsubscribe ''L'' (run [Connect True (Some ''L'') None] (new_client 5 1000 True))
       = (run [Connect True (Some ''L'') None] (new_client 5 1000 True), None)
   \<and> wsReadyState (run [Connect True (Some ''L'') None, SocketOpen 0] (new_client 5 1000 True))
       = Some OPEN
   \<and> ''L'' \<in> set (subscribedLeaderboards
        (run [Connect True (Some ''L'') None, SocketOpen 0] (new_client 5 1000 True)))
   \<and> ''L'' \<notin> set (subscribedLeaderboards (fst (unsubscribe ''L''
        (run [Connect True (Some ''L'') None, SocketOpen 0] (new_client 5 1000 True)))))"
proof -
  let ?c = "run [Connect True (Some ''L'') None] (new_client 5 1000 True)"
  let ?o = "run [Connect True (Some ''L'') None, SocketOpen 0] (new_client 5 1000 True)"
  have c: "wsReadyState ?c \<noteq> Some OPEN"
    by code_simp
  have o1: "wsReadyState ?o = Some OPEN"
    by code_simp
  have o2: "''L'' \<in> set (subscribedLeaderboards ?o)"
    by code_simp
  from unsubscribe_contract[of ?c "''L''"] c
  have u1: "unsubscribe ''L'' ?c = (?c, None)" by blast
  from unsubscribe_contract[of ?o "''L''"] o1
  have u2: "''L'' \<notin> set (subscribedLeaderboards (fst (unsubscribe ''L'' ?o)))" by blast
  from c u1 o1 o2 u2 show ?thesis by blast
qed

text \<open>
  The claim as first stated fails while the client is connecting: the leaderboard given to
  \<open>connect\<close> is in the subscription set, and it is still there after \<open>unsubscribe\<close>.
\<close>

theorem unsubscribe_contract_counterexample:
  "''L'' \<in> set (subscribedLeaderboards
       (run [Connect True (Some ''L'') None] (new_client 5 1000 True)))
   \<and> wsReadyState (run [Connect True (Some ''L'') None] (new_client 5 1000 True))
       = Some CONNECTING
   \<and> ''L'' \<in> set (subscribedLeaderboards (fst (unsubscribe ''L''
       (run [Connect True (Some ''L'') None] (new_client 5 1000 True)))))"
  by code_simp

text \<open>
  C6 (as amended). Let the client be neither connected nor connecting. If a permanent
  error is stored, \<open>reconnect\<close> throws that error and leaves the client as it is: no
  socket is constructed. If none is stored, \<open>reconnect\<close> sets the attempt counter to 0
  and \<open>shouldReconnect\<close> to true; then, when the network is online, it calls
  \<open>connect()\<close>, which constructs a socket, and when the network is offline it throws the
  \<open>WS_OFFLINE\<close> error without connecting.
\<close>

theorem reconnect_contract:
  "\<not> isConnected s \<and> \<not> isConnecting s \<longrightarrow>
     (\<forall>e. permanentError s = Some e \<longrightarrow> reconnect ok s = (s, Some e))
     \<and> (permanentError s = None \<and> netOnline s \<longrightarrow>
          reconnect ok s
            = (connect ok None None (s\<lparr>reconnectAttempts := 0, shouldReconnect := True\<rparr>), None)
          \<and> reconnectAttempts (fst (reconnect ok s)) = 0
          \<and> constructed (fst (reconnect ok s)) = constructed s + 1)
     \<and> (permanentError s = None \<and> \<not> netOnline s \<longrightarrow>
          reconnect ok s
            = (s\<lparr>reconnectAttempts := 0, shouldReconnect := True\<rparr>, Some ws_offline))"
proof (intro impI)
  assume idle: "\<not> isConnected s \<and> \<not> isConnecting s"
  let ?s1 = "s\<lparr>reconnectAttempts := 0, shouldReconnect := True\<rparr>"
  have idle1: "\<not> isConnected ?s1" "\<not> isConnecting ?s1"
    using idle by (auto simp add: isConnected_def wsReadyState_def split: option.splits)
  have a: "\<forall>e. permanentError s = Some e \<longrightarrow> reconnect ok s = (s, Some e)"
    using idle by (simp add: reconnect_def)
  have b1: "reconnect ok s = (connect ok None None ?s1, None)"
    if "permanentError s = None \<and> netOnline s"
    using idle that by (simp add: reconnect_def Let_def)
  have b: "permanentError s = None \<and> netOnline s \<longrightarrow>
          reconnect ok s = (connect ok None None ?s1, None)
          \<and> reconnectAttempts (fst (reconnect ok s)) = 0
          \<and> constructed (fst (reconnect ok s)) = constructed s + 1"
    using b1 connect_proceeds[OF idle1, of ok None None] by simp
  have c: "permanentError s = None \<and> \<not> netOnline s \<longrightarrow>
          reconnect ok s = (?s1, Some ws_offline)"
    using idle by (simp add: reconnect_def Let_def)
  from a b c show "(\<forall>e. permanentError s = Some e \<longrightarrow> reconnect ok s = (s, Some e))
     \<and> (permanentError s = None \<and> netOnline s \<longrightarrow>
          reconnect ok s = (connect ok None None ?s1, None)
          \<and> reconnectAttempts (fst (reconnect ok s)) = 0
          \<and> constructed (fst (reconnect ok s)) = constructed s + 1)
     \<and> (permanentError s = None \<and> \<not> netOnline s \<longrightarrow>
          reconnect ok s = (?s1, Some ws_offline))"
    by blast
qed

theorem reconnect_contract_witness:
  "\<not> isConnected after_permanent \<and> \<not> isConnecting after_permanent
   \<and> permanentError after_permanent = Some (GLError ''bad key'' ''INVALID_API_KEY'')
   \<and> reconnect True after_permanent
       = (after_permanent, Some (GLError ''bad key'' ''INVALID_API_KEY''))
   \<and> \<not> isConnected (new_client 5 1000 True) \<and> \<not> isConnecting (new_client 5 1000 True)
   \<and> permanentError (new_client 5 1000 True) = None \<and> netOnline (new_client 5 1000 True)
   \<and> reconnectAttempts (fst (reconnect True (new_client 5 1000 True))) = 0
   \<and> constructed (fst (reconnect True (new_client 5 1000 True))) = 1
   \<and> \<not> isConnected (new_client 5 1000 False) \<and> \<not> isConnecting (new_client 5 1000 False)
   \<and> permanentError (new_client 5 1000 False) = None \<and> \<not> netOnline (new_client 5 1000 False)
   \<and> snd (reconnect True (new_client 5 1000 False)) = Some ws_offline"
proof -
  have p: "\<not> isConnected after_permanent \<and> \<not> isConnecting after_permanent"
    "permanentError after_permanent = Some (GLError ''bad key'' ''INVALID_API_KEY'')"
    by code_simp+
  have n: "\<not> isConnected (new_client 5 1000 True) \<and> \<not> isConnecting (new_client 5 1000 True)"
    "permanentError (new_client 5 1000 True) = None \<and> netOnline (new_client 5 1000 True)"
    "constructed (new_client 5 1000 True) = 0"
    by code_simp+
  have f: "\<not> isConnected (new_client 5 1000 False) \<and> \<not> isConnecting (new_client 5 1000 False)"
    "permanentError (new_client 5 1000 False) = None \<and> \<not> netOnline (new_client 5 1000 False)"
    by code_simp+
  from reconnect_contract[of after_permanent True] p
  have r1: "reconnect True after_permanent
              = (after_permanent, Some (GLError ''bad key'' ''INVALID_API_KEY''))"
    by blast
  from reconnect_contract[of "new_client 5 1000 True" True] n(1,2)
  have r2': "reconnectAttempts (fst (reconnect True (new_client 5 1000 True))) = 0
      \<and> constructed (fst (reconnect True (new_client 5 1000 True)))
          = constructed (new_client 5 1000 True) + 1"
    by blast
  then have r2: "reconnectAttempts (fst (reconnect True (new_client 5 1000 True))) = 0"
    "constructed (fst (reconnect True (new_client 5 1000 True))) = 1"
    using n(3) by simp_all
  from reconnect_contract[of "new_client 5 1000 False" True] f
  have "reconnect True (new_client 5 1000 False)
          = ((new_client 5 1000 False)\<lparr>reconnectAttempts := 0, shouldReconnect := True\<rparr>,
             Some ws_offline)"
    by blast
  then have r3: "snd (reconnect True (new_client 5 1000 False)) = Some ws_offline"
    by simp
  from p n f r1 r2 r3 show ?thesis by blast
qed

text \<open>
  The claim as first stated fails while the network is offline: with no permanent error
  stored and the client neither connected nor connecting, \<open>reconnect\<close> throws
  \<open>WS_OFFLINE\<close> and constructs no socket.
\<close>

theorem reconnect_contract_counterexample:
  "\<not> isConnected (new_client 5 1000 False) \<and> \<not> isConnecting (new_client 5 1000 False)
   \<and> permanentError (new_client 5 1000 False) = None
   \<and> snd (reconnect True (new_client 5 1000 False)) = Some ws_offline
   \<and> constructed (fst (reconnect True (new_client 5 1000 False)))
       = constructed (new_client 5 1000 False)
   \<and> sockets (fst (reconnect True (new_client 5 1000 False))) = []"
  by code_simp

text \<open>
  C7. \<open>disconnect\<close> cancels the reconnect timer whose handle is in \<open>reconnectTimer\<close>, and
  that field holds only the last timer set. On the trace below two reconnect timers are
  pending when \<open>disconnect\<close> is called; the first is still pending after it returns, and
  when it fires, with no call of \<open>connect\<close> or \<open>reconnect\<close> in between, its callback
  calls \<open>connect()\<close>: a third socket is constructed and \<open>shouldReconnect\<close> is true again.
\<close>

theorem disconnect_leaves_stale_timer:
  "timeouts (run stale_timer_trace (new_client 5 1000 True)) = [(1, 1000)]
   \<and> reconnectTimer (run stale_timer_trace (new_client 5 1000 True)) = None
   \<and> \<not> shouldReconnect (run stale_timer_trace (new_client 5 1000 True))
   \<and> constructed (run stale_timer_trace (new_client 5 1000 True)) = 2
   \<and> constructed (run (stale_timer_trace @ [TimeoutFires 1 True (1 / 2)])
        (new_client 5 1000 True)) = 3
   \<and> wsReadyState (run (stale_timer_trace @ [TimeoutFires 1 True (1 / 2)])
        (new_client 5 1000 True)) = Some CONNECTING
   \<and> shouldReconnect (run (stale_timer_trace @ [TimeoutFires 1 True (1 / 2)])
        (new_client 5 1000 True))"
  by code_simp

text \<open>
  C8. When the scheduler sets a reconnect timer for attempt \<open>a\<close> in 1..5 (the network
  is online and the attempt is within the budget) with base delay 1000 ms, then for every
  value \<open>r\<close> of the random source in [0, 1) the delay \<open>d\<close> of the timer, computed in
  double arithmetic, lies within \<open>[2^(a-1) * 1000 * 0.75, 2^(a-1) * 1000 * 1.25]\<close> and is
  not negative, and the \<open>onReconnecting\<close> observer is called with
  \<open>(a, maxAttempts, round d)\<close>.
\<close>

theorem reconnect_delay_bounds:
  assumes online: "netOnline s"
    and base: "reconnectDelay s = 1000"
    and a: "a = reconnectAttempts s + 1"
    and range: "a \<in> {1..5}"
    and budget: "a \<le> maxReconnectAttempts s"
    and r: "0 \<le> r" "r < 1"
  shows "\<exists>d. timeouts (scheduleReconnect r s) = timeouts s @ [(nextTimerId s, d)]
           \<and> 2 ^ (a - 1) * 1000 * 0.75 \<le> d \<and> d \<le> 2 ^ (a - 1) * 1000 * 1.25 \<and> 0 \<le> d
           \<and> calls (scheduleReconnect r s)
               = calls s @ [OnReconnecting a (maxReconnectAttempts s) (round d)]
           \<and> reconnectAttempts (scheduleReconnect r s) = a"
proof -
  define b :: real where "b = fp (reconnectDelay s * fp (2 ^ reconnectAttempts s))"
  define d where "d = max 0 (fp (b + fp (fp (fp (r - 0.5) * 2) * fp (b * 0.25))))"
  have n: "reconnectAttempts s \<le> 4" and n1: "reconnectAttempts s = a - 1"
    using a range by simp_all
  have b: "b = 1000 * 2 ^ (a - 1)"
    unfolding b_def base using base_delay(1)[OF n] by (simp add: n1)
  have db: "double (b * 0.25)" "double (b * 0.75)" "double (b * 1.25)"
    unfolding b using base_delay(2,3,4)[OF n] by (simp_all add: n1)
  have b0: "0 \<le> b" by (simp add: b)
  have go: "reconnectAttempts s < maxReconnectAttempts s"
    using a budget by simp
  have sr: "scheduleReconnect r s
              = s\<lparr>reconnectAttempts := a,
                   calls := calls s @ [OnReconnecting a (maxReconnectAttempts s) (round d)],
                   timeouts := timeouts s @ [(nextTimerId s, d)],
                   reconnectTimer := Some (nextTimerId s),
                   nextTimerId := nextTimerId s + 1\<rparr>"
    unfolding scheduleReconnect_proceeds[OF online go] Let_def d_def b_def a by (rule refl)
  have t: "timeouts (scheduleReconnect r s) = timeouts s @ [(nextTimerId s, d)]"
    and c: "calls (scheduleReconnect r s)
             = calls s @ [OnReconnecting a (maxReconnectAttempts s) (round d)]"
    and m: "reconnectAttempts (scheduleReconnect r s) = a"
    by (simp_all add: sr)
  have "b * 0.75 \<le> d"
    using jitter_bounds(1)[OF b0 db r] unfolding d_def .
  hence lo: "2 ^ (a - 1) * 1000 * 0.75 \<le> d" by (simp add: b)
  have "d \<le> b * 1.25"
    using jitter_bounds(2)[OF b0 db r] unfolding d_def .
  hence hi: "d \<le> 2 ^ (a - 1) * 1000 * 1.25" by (simp add: b)
  have nn: "0 \<le> d" by (simp add: d_def)
  from t lo hi nn c m show ?thesis by blast
qed

theorem reconnect_delay_bounds_witness:
  "netOnline ((new_client 5 1000 True)\<lparr>reconnectAttempts := 2\<rparr>)
   \<and> reconnectDelay ((new_client 5 1000 True)\<lparr>reconnectAttempts := 2\<rparr>) = 1000
   \<and> (3::nat) = reconnectAttempts ((new_client 5 1000 True)\<lparr>reconnectAttempts := 2\<rparr>) + 1
   \<and> (3::nat) \<in> {1..5}
   \<and> 3 \<le> maxReconnectAttempts ((new_client 5 1000 True)\<lparr>reconnectAttempts := 2\<rparr>)
   \<and> (0::real) \<le> 1 / 4 \<and> (1 / 4 :: real) < 1
   \<and> (\<exists>d. timeouts (scheduleReconnect (1 / 4) ((new_client 5 1000 True)\<lparr>reconnectAttempts := 2\<rparr>))
              = [(1, d)]
          \<and> 3000 \<le> d \<and> d \<le> 5000
          \<and> calls (scheduleReconnect (1 / 4) ((new_client 5 1000 True)\<lparr>reconnectAttempts := 2\<rparr>))
              = [OnReconnecting 3 5 (round d)])"
proof -
  let ?s = "(new_client 5 1000 True)\<lparr>reconnectAttempts := 2\<rparr>"
  have h: "netOnline ?s" "reconnectDelay ?s = 1000" "(3::nat) = reconnectAttempts ?s + 1"
    "(3::nat) \<in> {1..5}" "3 \<le> maxReconnectAttempts ?s" "(0::real) \<le> 1 / 4" "(1 / 4 :: real) < 1"
    by (simp_all add: new_client_def)
  have st: "timeouts ?s = []" "nextTimerId ?s = 1" "calls ?s = []" "maxReconnectAttempts ?s = 5"
    by (simp_all add: new_client_def)
  from reconnect_delay_bounds[OF h] obtain d where
    d: "timeouts (scheduleReconnect (1 / 4) ?s) = timeouts ?s @ [(nextTimerId ?s, d)]"
      "2 ^ (3 - 1) * 1000 * 0.75 \<le> d" "d \<le> 2 ^ (3 - 1) * 1000 * 1.25"
      "calls (scheduleReconnect (1 / 4) ?s)
         = calls ?s @ [OnReconnecting 3 (maxReconnectAttempts ?s) (round d)]"
    by blast
  have "timeouts (scheduleReconnect (1 / 4) ?s) = [(1, d)]"
    using d(1) by (simp add: st)
  moreover have "3000 \<le> d" "d \<le> 5000" using d(2,3) by simp_all
  moreover have "calls (scheduleReconnect (1 / 4) ?s) = [OnReconnecting 3 5 (round d)]"
    using d(4) by (simp add: st)
  ultimately have "\<exists>d. timeouts (scheduleReconnect (1 / 4) ?s) = [(1, d)]
          \<and> 3000 \<le> d \<and> d \<le> 5000
          \<and> calls (scheduleReconnect (1 / 4) ?s) = [OnReconnecting 3 5 (round d)]"
    by blast
  with h show ?thesis by blast
qed

section \<open>Further properties\<close>

text \<open>
  X1. The keys of the sub-batches of a large group can coincide with the key of another
  group. With 101 operations for leaderboard \<open>L\<close> followed by one operation for the
  leaderboard named \<open>L_0\<close>, the entry \<open>L_0\<close> of the first hundred operations is
  overwritten: the map returned holds two batches with one operation each, the operation
  for \<open>L_0\<close> and the last operation for \<open>L\<close>.
\<close>

theorem split_key_collision:
  "length (queue collision_queue) = 102
   \<and> map (\<lambda>e. (fst e, map queueId (snd e))) (snd (batchOperations 1000 collision_queue))
       = [([76, 95, 48], [toString 101]), ([76, 95, 49, 48, 48], [toString 100])]"
proof -
  have "length (queue collision_queue) = 102"
    by (simp add: collision_queue_def)
  moreover have "map (\<lambda>e. (fst e, map queueId (snd e))) (snd (batchOperations 1000 collision_queue))
       = [([76, 95, 48], [toString 101]), ([76, 95, 49, 48, 48], [toString 100])]"
    by (simp add: collision_batches example_op_def)
  ultimately show ?thesis ..
qed

text \<open>
  X2. If every pending reconnect timer is the one held in \<open>reconnectTimer\<close> when
  \<open>disconnect\<close> is called, no reconnect timer is pending after it, and whatever happens
  next short of a call of \<open>connect\<close> or \<open>reconnect\<close> (socket events, timer firings,
  network changes, other calls), no socket is constructed, no reconnect timer is set and
  \<open>shouldReconnect\<close> stays false.
\<close>

theorem disconnect_final_when_tracked:
  assumes tracked: "list_all (\<lambda>p. reconnectTimer s = Some (fst p)) (timeouts s)"
    and calm: "list_all (\<lambda>e. \<not> is_connect_call e) evs"
  shows "timeouts (disconnect s) = []
       \<and> \<not> shouldReconnect (run evs (disconnect s))
       \<and> timeouts (run evs (disconnect s)) = []
       \<and> constructed (run evs (disconnect s)) = constructed s"
proof -
  have q: "quiet (disconnect s) (constructed s)"
    using tracked by (rule disconnect_quiet)
  then have "quiet (run evs (disconnect s)) (constructed s)"
    using calm by (rule quiet_run)
  with q show ?thesis by (simp add: quiet_def)
qed

theorem disconnect_final_when_tracked_witness:
  "list_all (\<lambda>p. reconnectTimer (run [Connect True None None, SocketClose 0 1006 [] (1 / 2)]
                                      (new_client 5 1000 True)) = Some (fst p))
      (timeouts (run [Connect True None None, SocketClose 0 1006 [] (1 / 2)]
                   (new_client 5 1000 True)))
   \<and> timeouts (run [Connect True None None, SocketClose 0 1006 [] (1 / 2)]
                 (new_client 5 1000 True)) = [(1, 1000)]
   \<and> list_all (\<lambda>e. \<not> is_connect_call e) [TimeoutFires 1 True (1 / 2), NetworkOnline True]
   \<and> timeouts (disconnect (run [Connect True None None, SocketClose 0 1006 [] (1 / 2)]
                 (new_client 5 1000 True))) = []
   \<and> constructed (run [TimeoutFires 1 True (1 / 2), NetworkOnline True]
        (disconnect (run [Connect True None None, SocketClose 0 1006 [] (1 / 2)]
                        (new_client 5 1000 True)))) = 1"
proof -
  let ?s = "run [Connect True None None, SocketClose 0 1006 [] (1 / 2)] (new_client 5 1000 True)"
  have t: "timeouts ?s = [(1, 1000)]" and r: "reconnectTimer ?s = Some 1"
    and c: "constructed ?s = 1"
    by code_simp+
  have tracked: "list_all (\<lambda>p. reconnectTimer ?s = Some (fst p)) (timeouts ?s)"
    by (simp add: t r)
  have calm: "list_all (\<lambda>e. \<not> is_connect_call e) [TimeoutFires 1 True (1 / 2), NetworkOnline True]"
    by (simp add: is_connect_call_def)
  from disconnect_final_when_tracked[OF tracked calm]
  have "timeouts (disconnect ?s) = []"
    "constructed (run [TimeoutFires 1 True (1 / 2), NetworkOnline True] (disconnect ?s)) = 1"
    by (simp_all add: c)
  with tracked t calm show ?thesis by blast
qed

text \<open>
  X3. After the expiry cleaning, and so in the queue that \<open>batchOperations\<close> leaves, every
  operation is younger than 24 hours.
\<close>

theorem expired_items_purged:
  "list_all (\<lambda>op. now - timestamp op < QUEUE_TTL_MS) (queue (cleanExpiredItems now q))
   \<and> list_all (\<lambda>op. now - timestamp op < QUEUE_TTL_MS) (queue (fst (batchOperations now q)))"
  by (simp add: batchOperations_fst queue_cleanExpiredItems list_all_iff)

text \<open>
  X4. A drain pass over a queue whose unexpired operations are at most 100 submit
  operations for one leaderboard (whose id does not start with \<open>bulk_\<close>) makes one bulk
  call with all of them; when that call succeeds the queue is empty afterwards and the
  processing flag is cleared.
\<close>

theorem drain_success_empties_queue:
  assumes online: "isOnline s" and idle: "\<not> processing (offlineQueue s)"
    and same: "\<forall>op \<in> set (queue (cleanExpiredItems now (offlineQueue s))).
                 opMethod op = Submit \<and> leaderboardId (params op) = Some L"
    and nonempty: "L \<noteq> []" and plain: "\<not> startsWith L bulk_prefix"
    and some: "queue (cleanExpiredItems now (offlineQueue s)) \<noteq> []"
    and small: "length (queue (cleanExpiredItems now (offlineQueue s))) \<le> 100"
    and ok: "net (length (requests s)) = HttpOk"
  shows "queue (offlineQueue (processOfflineQueue now net s)) = []
       \<and> requests (processOfflineQueue now net s)
           = requests s @ [(''/v1/scores/bulk'',
                            map to_request (queue (cleanExpiredItems now (offlineQueue s))))]
       \<and> \<not> processing (offlineQueue (processOfflineQueue now net s))"
proof -
  let ?ops = "queue (cleanExpiredItems now (offlineQueue s))"
  have groups: "foldl group_step [] ?ops = [(L, ?ops)]"
    by (rule group_fold_uniform_empty[OF same nonempty some])
  have bs: "snd (batchOperations now (offlineQueue s)) = [(L, ?ops)]"
    using small by (simp add: batchOperations_snd groups limit_step_def MAX_BATCH_SIZE_def)
  have start: "dq (drain_start now s) = ?ops" by (rule dq_drain_start)
  have reqs: "requests (client (drain_start now s)) = requests s"
    by (simp add: drain_start_def)
  obtain d c where step: "processBatch net (L, ?ops) (drain_start now s) = (d, c)"
    by (cases "processBatch net (L, ?ops) (drain_start now s)")
  have d: "dq d = filter (\<lambda>op. queueId op \<notin> set (map queueId ?ops)) (dq (drain_start now s))"
    "requests (client d) = requests s @ [(''/v1/scores/bulk'', map to_request ?ops)]"
    "c = Continue"
    using step plain ok
    by (auto simp add: processBatch_def request_def reqs on_queue_def emit_progress_def
        dq_def removeProcessed_def persistQueue_def emit_def)
  have empty: "dq d = []" using d(1) by (simp add: start filter_all_ids)
  have pass: "processOfflineQueue now net s
                = (client d)\<lparr>offlineQueue := setProcessing False (offlineQueue (client d))\<rparr>"
    using online idle
    by (simp add: processOfflineQueue_def Let_def batchOperations_setProcessing bs step d(3))
  show ?thesis
    using empty d(2) by (simp add: pass dq_def setProcessing_def)
qed

theorem drain_success_empties_queue_witness:
  "isOnline (example_client (example_queue 3 (Some [76]) 0))
   \<and> \<not> processing (offlineQueue (example_client (example_queue 3 (Some [76]) 0)))
   \<and> length (queue (cleanExpiredItems 1000
         (offlineQueue (example_client (example_queue 3 (Some [76]) 0))))) = 3
   \<and> \<not> startsWith [76] bulk_prefix
   \<and> queue (offlineQueue (processOfflineQueue 1000 (\<lambda>n. HttpOk)
         (example_client (example_queue 3 (Some [76]) 0)))) = []
   \<and> requests (processOfflineQueue 1000 (\<lambda>n. HttpOk)
         (example_client (example_queue 3 (Some [76]) 0)))
       = [(''/v1/scores/bulk'', map to_request (queue (example_queue 3 (Some [76]) 0)))]"
proof -
  let ?s = "example_client (example_queue 3 (Some [76]) 0)"
  have fresh: "queue (cleanExpiredItems 1000 (offlineQueue ?s))
                 = queue (example_queue 3 (Some [76]) 0)"
    using example_queue_fresh[of 1000 0 3 "Some [76]"]
    by (simp add: example_client_def QUEUE_TTL_MS_def)
  have online: "isOnline ?s" and idle: "\<not> processing (offlineQueue ?s)"
    by (simp_all add: example_client_def example_queue_def)
  have same: "\<forall>op \<in> set (queue (cleanExpiredItems 1000 (offlineQueue ?s))).
                 opMethod op = Submit \<and> leaderboardId (params op) = Some [76]"
    unfolding fresh by (simp add: example_queue_def example_op_def example_params_def)
  have plain: "\<not> startsWith [76] bulk_prefix"
    by (simp add: startsWith_def bulk_prefix_def)
  have n: "length (queue (cleanExpiredItems 1000 (offlineQueue ?s))) = 3"
    unfolding fresh by (simp add: example_queue_def)
  have some: "queue (cleanExpiredItems 1000 (offlineQueue ?s)) \<noteq> []"
    using n by auto
  have small: "length (queue (cleanExpiredItems 1000 (offlineQueue ?s))) \<le> 100"
    using n by simp
  have reqs: "requests ?s = []" by (simp add: example_client_def)
  from drain_success_empties_queue[OF online idle same _ plain some small, of "\<lambda>n. HttpOk"]
  have "queue (offlineQueue (processOfflineQueue 1000 (\<lambda>n. HttpOk) ?s)) = []"
    "requests (processOfflineQueue 1000 (\<lambda>n. HttpOk) ?s)
       = [(''/v1/scores/bulk'', map to_request (queue (example_queue 3 (Some [76]) 0)))]"
    by (simp_all add: fresh reqs)
  with online idle n plain show ?thesis by blast
qed

text \<open>
  X5. The delay of a reconnect timer is the double the code computes. On the first
  attempt with base delay 1000, when \<open>Math.random()\<close> returns the double nearest to
  0.009, which is \<open>5188146770730811 / 2^59\<close>, the delay is 754.5 and the observer is
  told 755, although the same expression in exact arithmetic is below 754.5; and when it
  returns the largest double below 1, the delay is the upper bound 1250.
\<close>

theorem reconnect_delay_in_doubles:
  "timeouts (scheduleReconnect (5188146770730811 / 2 ^ 59) (new_client 5 1000 True))
     = [(1, 1509 / 2)]
   \<and> calls (scheduleReconnect (5188146770730811 / 2 ^ 59) (new_client 5 1000 True))
     = [OnReconnecting 1 5 755]
   \<and> 1000 + (5188146770730811 / 2 ^ 59 - 0.5) * 2 * (1000 * 0.25) < (1509 / 2 :: real)
   \<and> timeouts (scheduleReconnect (1 - 1 / 2 ^ 53) (new_client 5 1000 True)) = [(1, 1250)]"
  by code_simp

end
